theory Spec2Isabelle
  imports Main "HOL-Library.Word"
begin

section \<open>JavaScript strings\<close>

text \<open>
  A JavaScript string is a sequence of 16-bit code units; \<open>length\<close>, \<open>substring\<close>,
  \<open>split\<close>, \<open>trim\<close> and \<open>includes\<close> all work on code units. String literals of the source
  are written through \<open>js\<close>, which maps an ASCII literal to its code units.
\<close>

type_synonym jschar = "16 word"

type_synonym jsstring = "jschar list"

definition js :: "string \<Rightarrow> jsstring" where
  "js s = map (\<lambda>c. of_nat (of_char c)) s"

definition SPACE :: jschar where
  "SPACE = 0x20"

text \<open>
  The class \<open>\s\<close> of a regular expression and the characters removed by \<open>trim()\<close> are the
  same set: WhiteSpace and LineTerminator of ECMAScript (TAB, LF, VT, FF, CR, SP, NBSP,
  U+1680, U+2000 to U+200A, U+2028, U+2029, U+202F, U+205F, U+3000, U+FEFF).
\<close>

definition isWhitespace :: "jschar \<Rightarrow> bool" where
  "isWhitespace c \<longleftrightarrow>
     c \<in> {0x9, 0xA, 0xB, 0xC, 0xD, 0x20, 0xA0, 0x1680, 0x2028, 0x2029, 0x202F, 0x205F,
          0x3000, 0xFEFF}
     \<or> (0x2000 \<le> c \<and> c \<le> 0x200A)"

text \<open>The class \<open>[.!?]\<close> of the sentence regular expression.\<close>

definition isTerminator :: "jschar \<Rightarrow> bool" where
  "isTerminator c \<longleftrightarrow> c = 0x2E \<or> c = 0x21 \<or> c = 0x3F"

text \<open>\<open>s.trim()\<close>\<close>

definition trim :: "jsstring \<Rightarrow> jsstring" where
  "trim s = rev (dropWhile isWhitespace (rev (dropWhile isWhitespace s)))"

text \<open>
  \<open>text.split(/(?<=[.!?])\s+/)\<close>. The split scans the text from left to right; at a
  position whose preceding code unit is one of \<open>. ! ?\<close> and whose own code unit is
  whitespace, the greedy \<open>\s+\<close> consumes the whole run of whitespace, the piece read so far
  is emitted and the scan goes on after the run. The last piece is always emitted, also
  when it is empty. \<open>piece\<close> is the piece read so far: when it is empty the preceding code
  unit is either missing or the whitespace that ended the previous match, so the
  look-behind fails.
\<close>

function splitAfterTerminator :: "jsstring \<Rightarrow> jsstring \<Rightarrow> jsstring list" where
  "splitAfterTerminator piece [] = [piece]"
| "splitAfterTerminator piece (c # cs) =
     (if piece \<noteq> [] \<and> isTerminator (last piece) \<and> isWhitespace c
      then piece # splitAfterTerminator [] (dropWhile isWhitespace cs)
      else splitAfterTerminator (piece @ [c]) cs)"
  by pat_completeness auto
termination
  by (relation "measure (\<lambda>(piece, rest). length rest)")
     (auto simp: length_dropWhile_le less_Suc_eq_le)

definition splitSentences :: "jsstring \<Rightarrow> jsstring list" where
  "splitSentences text = splitAfterTerminator [] text"

text \<open>\<open>sentence.split(' ')\<close>: every single space separates, so two spaces in a row give an
  empty word.\<close>

fun splitOnSpace :: "jsstring \<Rightarrow> jsstring \<Rightarrow> jsstring list" where
  "splitOnSpace piece [] = [piece]"
| "splitOnSpace piece (c # cs) =
     (if c = SPACE then piece # splitOnSpace [] cs else splitOnSpace (piece @ [c]) cs)"

definition splitWords :: "jsstring \<Rightarrow> jsstring list" where
  "splitWords sentence = splitOnSpace [] sentence"

text \<open>\<open>message.includes(sub)\<close>\<close>

fun str_includes :: "jsstring \<Rightarrow> jsstring \<Rightarrow> bool" where
  "str_includes [] sub = (sub = [])"
| "str_includes (c # cs) sub = (take (length sub) (c # cs) = sub \<or> str_includes cs sub)"

text \<open>\<open>parts.join(sep)\<close>, and the decimal digits that a template literal writes for a
  number that is a natural number.\<close>

fun join :: "'a list \<Rightarrow> 'a list list \<Rightarrow> 'a list" where
  "join sep [] = []"
| "join sep [s] = s"
| "join sep (s # t # rest) = s @ sep @ join sep (t # rest)"

function toString :: "nat \<Rightarrow> jsstring" where
  "toString n = (if n < 10 then [of_nat (48 + n)] else toString (n div 10) @ [of_nat (48 + n mod 10)])"
  by pat_completeness auto
termination
  by (relation "measure id") auto

section \<open>The chunker\<close>

definition MAX_CHUNK_SIZE :: nat where
  "MAX_CHUNK_SIZE = 4000"

text \<open>
  The loop over the words of a sentence that is too long (lines 239 to 252). The state is
  the pair of the variables \<open>chunks\<close> and \<open>wordChunk\<close>; a string is truthy when it is not
  empty.
\<close>

fun wordLoop :: "jsstring list \<Rightarrow> jsstring list \<times> jsstring \<Rightarrow> jsstring list \<times> jsstring" where
  "wordLoop [] (chunks, wordChunk) = (chunks, wordChunk)"
| "wordLoop (word # words) (chunks, wordChunk) =
     (if length (wordChunk @ [SPACE] @ word) > MAX_CHUNK_SIZE then
        (if wordChunk \<noteq> [] then wordLoop words (chunks @ [trim wordChunk], word)
         else wordLoop words
                (chunks @ [take MAX_CHUNK_SIZE word], drop MAX_CHUNK_SIZE word))
      else wordLoop words
             (chunks, if wordChunk \<noteq> [] then wordChunk @ [SPACE] @ word else word))"

text \<open>
  The loop over the sentences (lines 228 to 268). The state is the pair of the variables
  \<open>chunks\<close> and \<open>currentChunk\<close>.
\<close>

fun sentenceLoop :: "jsstring list \<Rightarrow> jsstring list \<times> jsstring \<Rightarrow> jsstring list \<times> jsstring" where
  "sentenceLoop [] (chunks, currentChunk) = (chunks, currentChunk)"
| "sentenceLoop (sentence # sentences) (chunks, currentChunk) =
     (if length sentence > MAX_CHUNK_SIZE then
        (case (if currentChunk \<noteq> [] then (chunks @ [trim currentChunk], [])
               else (chunks, currentChunk)) of
           (chunks1, currentChunk1) \<Rightarrow>
             (case wordLoop (splitWords sentence) (chunks1, []) of
                (chunks2, wordChunk) \<Rightarrow>
                  sentenceLoop sentences
                    (chunks2, if wordChunk \<noteq> [] then wordChunk else currentChunk1)))
      else
        (if length (currentChunk @ [SPACE] @ sentence) > MAX_CHUNK_SIZE then
           sentenceLoop sentences
             (if currentChunk \<noteq> [] then chunks @ [trim currentChunk] else chunks, sentence)
         else
           sentenceLoop sentences
             (chunks, if currentChunk \<noteq> [] then currentChunk @ [SPACE] @ sentence
                      else sentence)))"

text \<open>\<open>chunkText(text)\<close>, lines 217 to 275.\<close>

definition chunkText :: "jsstring \<Rightarrow> jsstring list" where
  "chunkText text =
     (if length text \<le> MAX_CHUNK_SIZE then [text]
      else
        (case sentenceLoop (splitSentences text) ([], []) of
           (chunks, currentChunk) \<Rightarrow>
             filter (\<lambda>chunk. length chunk > 0)
               (if currentChunk \<noteq> [] then chunks @ [trim currentChunk] else chunks)))"

section \<open>Errors, configuration and the outside world\<close>

text \<open>
  An error object, as far as the program reads it: its \<open>code\<close> (absent on a plain
  \<open>Error\<close>) and its \<open>message\<close>. \<open>new Error(msg)\<close> has no code.
\<close>

record jserror =
  code :: "jsstring option"
  message :: jsstring

definition new_Error :: "jsstring \<Rightarrow> jserror" where
  "new_Error msg = \<lparr>code = None, message = msg\<rparr>"

text \<open>
  The configuration the pipeline reads. \<open>outputBaseName\<close> is the field \<open>config.output\<close>
  of the source.
\<close>

record config =
  apiKey :: jsstring
  voice :: jsstring
  audioFormat :: jsstring
  outputBaseName :: jsstring

type_synonym bytes = "8 word list"

text \<open>The argument of \<open>openai.audio.speech.create\<close>.\<close>

record speechRequest =
  req_model :: jsstring
  req_voice :: jsstring
  req_input :: jsstring
  req_response_format :: jsstring

text \<open>
  The calls the pipeline makes to the outside, in the order it makes them: the synthesis
  request, \<open>fs.writeFile\<close>, \<open>fs.unlink\<close>, \<open>execAsync\<close>, \<open>fs.stat\<close> and the timer
  (\<open>setTimeout\<close> with its delay in milliseconds). A run of the pipeline takes the list of
  the events so far and returns it extended. Console output and the spinner do not
  influence the control flow and are left out.
\<close>

datatype filedata = Text jsstring | Bytes bytes

datatype event =
    SpeechCreate speechRequest
  | WriteFile jsstring filedata
  | Unlink jsstring
  | Exec jsstring
  | Stat jsstring
  | Sleep nat

text \<open>
  The outside world answers each call; its answer may depend on everything that happened
  before, so each answer is a function of the events so far. \<open>speechCreate\<close> stands for
  the request together with the reading of the response body. A call that throws answers
  with the error.
\<close>

record env =
  speechCreate :: "event list \<Rightarrow> speechRequest \<Rightarrow> jserror + bytes"
  writeFile :: "event list \<Rightarrow> jsstring \<Rightarrow> filedata \<Rightarrow> jserror option"
  unlink :: "event list \<Rightarrow> jsstring \<Rightarrow> jserror option"
  execAsync :: "event list \<Rightarrow> jsstring \<Rightarrow> jserror option"
  stat :: "event list \<Rightarrow> jsstring \<Rightarrow> jserror + nat"

section \<open>The segment converter\<close>

definition speechRequestFor :: "config \<Rightarrow> jsstring \<Rightarrow> speechRequest" where
  "speechRequestFor config text =
     \<lparr>req_model = js ''tts-1'', req_voice = voice config, req_input = text,
      req_response_format = audioFormat config\<rparr>"

definition tempPathFor :: "config \<Rightarrow> nat \<Rightarrow> jsstring" where
  "tempPathFor config chunkIndex =
     outputBaseName config @ js ''_chunk_'' @ toString chunkIndex @ js ''.'' @ audioFormat config"

text \<open>One attempt: the body of the \<open>try\<close> block of \<open>convertSingleChunk\<close> (lines 288 to 299).\<close>

definition attemptChunk ::
  "env \<Rightarrow> config \<Rightarrow> jsstring \<Rightarrow> nat \<Rightarrow> event list \<Rightarrow> (jserror + jsstring) \<times> event list" where
  "attemptChunk env config text chunkIndex h =
     (let request = speechRequestFor config text;
          h1 = h @ [SpeechCreate request]
      in case speechCreate env h request of
           Inl error \<Rightarrow> (Inl error, h1)
         | Inr buffer \<Rightarrow>
             (let tempPath = tempPathFor config chunkIndex;
                  h2 = h1 @ [WriteFile tempPath (Bytes buffer)]
              in case writeFile env h1 tempPath (Bytes buffer) of
                   Some error \<Rightarrow> (Inl error, h2)
                 | None \<Rightarrow> (Inr tempPath, h2)))"

text \<open>
  The \<open>for\<close> loop over the attempts (lines 286 to 307) and the final \<open>throw lastError\<close>
  (line 309). \<open>lastError\<close> is undefined until an attempt has failed, hence the option.
\<close>

function convertAttempts ::
  "env \<Rightarrow> config \<Rightarrow> jsstring \<Rightarrow> nat \<Rightarrow> nat \<Rightarrow> nat \<Rightarrow> jserror option \<Rightarrow> event list
   \<Rightarrow> (jserror option + jsstring) \<times> event list" where
  "convertAttempts env config text chunkIndex maxRetries attempt lastError h =
     (if attempt \<le> maxRetries then
        (case attemptChunk env config text chunkIndex h of
           (Inr tempPath, h') \<Rightarrow> (Inr tempPath, h')
         | (Inl error, h') \<Rightarrow>
             convertAttempts env config text chunkIndex maxRetries (attempt + 1) (Some error)
               (if attempt < maxRetries then h' @ [Sleep (1000 * attempt)] else h'))
      else (Inl lastError, h))"
  by pat_completeness auto
termination
  by (relation "measure (\<lambda>(env, config, text, chunkIndex, maxRetries, attempt, lastError, h).
                            maxRetries + 1 - attempt)") auto

text \<open>\<open>convertSingleChunk\<close> is always called with the default \<open>maxRetries = 3\<close>.\<close>

definition convertSingleChunk ::
  "env \<Rightarrow> config \<Rightarrow> jsstring \<Rightarrow> nat \<Rightarrow> event list \<Rightarrow> (jserror option + jsstring) \<times> event list" where
  "convertSingleChunk env config text chunkIndex h =
     convertAttempts env config text chunkIndex 3 1 None h"

section \<open>The merger\<close>

definition mergeFailure :: jserror where
  "mergeFailure =
     new_Error (js ''Failed to merge audio files. Please ensure ffmpeg is installed on your system.'')"

text \<open>The loop that deletes the fragments (lines 325 to 327).\<close>

fun unlinkAll :: "env \<Rightarrow> jsstring list \<Rightarrow> event list \<Rightarrow> jserror option \<times> event list" where
  "unlinkAll env [] h = (None, h)"
| "unlinkAll env (chunkPath # rest) h =
     (case unlink env h chunkPath of
        Some error \<Rightarrow> (Some error, h @ [Unlink chunkPath])
      | None \<Rightarrow> unlinkAll env rest (h @ [Unlink chunkPath]))"

definition listPath :: jsstring where
  "listPath = js ''chunks_list.txt''"

definition listContentFor :: "jsstring list \<Rightarrow> jsstring" where
  "listContentFor chunkPaths =
     join [0x0A] (map (\<lambda>path. js ''file '' @ [0x27] @ path @ [0x27]) chunkPaths)"

definition ffmpegCmdFor :: "jsstring \<Rightarrow> jsstring" where
  "ffmpegCmdFor outputPath =
     js ''ffmpeg -f concat -safe 0 -i '' @ [0x22] @ listPath @ [0x22] @ js '' -c copy '' @
     [0x22] @ outputPath @ [0x22] @ js '' -y''"

text \<open>
  \<open>mergeAudioFiles\<close>, lines 312 to 332. The manifest is written before the \<open>try\<close> block, so
  an error of that write is thrown as it is; every error inside the block is replaced by
  \<open>mergeFailure\<close>.
\<close>

definition mergeAudioFiles ::
  "env \<Rightarrow> jsstring list \<Rightarrow> jsstring \<Rightarrow> jsstring \<Rightarrow> event list \<Rightarrow> (jserror + unit) \<times> event list" where
  "mergeAudioFiles env chunkPaths outputPath audioFormat' h =
     (let listContent = listContentFor chunkPaths;
          h1 = h @ [WriteFile listPath (Text listContent)]
      in case writeFile env h listPath (Text listContent) of
           Some error \<Rightarrow> (Inl error, h1)
         | None \<Rightarrow>
             (let ffmpegCmd = ffmpegCmdFor outputPath;
                  h2 = h1 @ [Exec ffmpegCmd]
              in case execAsync env h1 ffmpegCmd of
                   Some error \<Rightarrow> (Inl mergeFailure, h2)
                 | None \<Rightarrow>
                     (let h3 = h2 @ [Unlink listPath]
                      in case unlink env h2 listPath of
                           Some error \<Rightarrow> (Inl mergeFailure, h3)
                         | None \<Rightarrow>
                             (case unlinkAll env chunkPaths h3 of
                                (Some error, h4) \<Rightarrow> (Inl mergeFailure, h4)
                              | (None, h4) \<Rightarrow> (Inr (), h4)))))"

section \<open>The orchestrator\<close>

text \<open>The loop over the chunks (lines 367 to 377).\<close>

function convertChunks ::
  "env \<Rightarrow> config \<Rightarrow> jsstring list \<Rightarrow> nat \<Rightarrow> jsstring list \<Rightarrow> event list
   \<Rightarrow> (jserror option + jsstring list) \<times> event list" where
  "convertChunks env config chunks i chunkPaths h =
     (if i < length chunks then
        (case convertSingleChunk env config (chunks ! i) (i + 1) h of
           (Inl thrown, h') \<Rightarrow> (Inl thrown, h')
         | (Inr chunkPath, h') \<Rightarrow>
             convertChunks env config chunks (i + 1) (chunkPaths @ [chunkPath])
               (if i < length chunks - 1 then h' @ [Sleep 1000] else h'))
      else (Inr chunkPaths, h))"
  by pat_completeness auto
termination
  by (relation "measure (\<lambda>(env, config, chunks, i, chunkPaths, h). length chunks - i)") auto

definition outputPathFor :: "config \<Rightarrow> jsstring" where
  "outputPathFor config = outputBaseName config @ js ''.'' @ audioFormat config"

text \<open>
  The \<open>try\<close> block of \<open>convertTextToSpeech\<close> (lines 338 to 392). The value thrown is an
  option because \<open>convertSingleChunk\<close> throws its variable \<open>lastError\<close>.
\<close>

definition convertTextToSpeech_try ::
  "env \<Rightarrow> config \<Rightarrow> jsstring \<Rightarrow> event list \<Rightarrow> (jserror option + unit) \<times> event list" where
  "convertTextToSpeech_try env config text h =
     (let chunks = chunkText text;
          outputPath = outputPathFor config
      in case
           (if length chunks = 1 then
              (let request = speechRequestFor config text;
                   h1 = h @ [SpeechCreate request]
               in case speechCreate env h request of
                    Inl error \<Rightarrow> (Inl (Some error), h1)
                  | Inr buffer \<Rightarrow>
                      (let h2 = h1 @ [WriteFile outputPath (Bytes buffer)]
                       in case writeFile env h1 outputPath (Bytes buffer) of
                            Some error \<Rightarrow> (Inl (Some error), h2)
                          | None \<Rightarrow> (Inr (), h2)))
            else
              (case convertChunks env config chunks 0 [] h of
                 (Inl thrown, h') \<Rightarrow> (Inl thrown, h')
               | (Inr chunkPaths, h') \<Rightarrow>
                   (case mergeAudioFiles env chunkPaths outputPath (audioFormat config) h' of
                      (Inl error, h'') \<Rightarrow> (Inl (Some error), h'')
                    | (Inr u, h'') \<Rightarrow> (Inr (), h''))))
         of
           (Inl thrown, h') \<Rightarrow> (Inl thrown, h')
         | (Inr u, h') \<Rightarrow>
             (case stat env h' outputPath of
                Inl error \<Rightarrow> (Inl (Some error), h' @ [Stat outputPath])
              | Inr stats \<Rightarrow> (Inr (), h' @ [Stat outputPath])))"

text \<open>The dispatch of the \<open>catch\<close> block (lines 397 to 407), as a function from the error
  caught to the error thrown.\<close>

definition convertTextToSpeech_catch :: "jserror \<Rightarrow> jserror" where
  "convertTextToSpeech_catch error =
     (if code error = Some (js ''invalid_api_key'') then
        new_Error (js ''Invalid OpenAI API key'')
      else if code error = Some (js ''insufficient_quota'') then
        new_Error (js ''OpenAI API quota exceeded'')
      else if str_includes (message error) (js ''rate limit'') then
        new_Error (js ''OpenAI API rate limit exceeded. Please try again later.'')
      else if str_includes (message error) (js ''ffmpeg'') then
        error
      else
        new_Error (js ''OpenAI API error: '' @ message error))"

text \<open>Reading \<open>error.code\<close> of an undefined value throws a TypeError.\<close>

definition typeErrorOfUndefined :: jserror where
  "typeErrorOfUndefined =
     new_Error (js ''Cannot read properties of undefined (reading 'code')'')"

definition convertTextToSpeech ::
  "env \<Rightarrow> config \<Rightarrow> jsstring \<Rightarrow> event list \<Rightarrow> (jserror + unit) \<times> event list" where
  "convertTextToSpeech env config text h =
     (case convertTextToSpeech_try env config text h of
        (Inr u, h') \<Rightarrow> (Inr (), h')
      | (Inl None, h') \<Rightarrow> (Inl typeErrorOfUndefined, h')
      | (Inl (Some error), h') \<Rightarrow> (Inl (convertTextToSpeech_catch error), h'))"

section \<open>Notions of the specification\<close>

text \<open>
  The specification speaks of the words of a text, of its content and of the chunks
  concatenated with single spaces reinserted. These are not functions of the program:
  \<open>content\<close> is the text without its whitespace, \<open>wordsOf\<close> the maximal runs of code units
  that are not whitespace, in order, and \<open>joinSpaces\<close> the chunks with one space between
  two neighbours.
\<close>

definition content :: "jsstring \<Rightarrow> jsstring" where
  "content s = filter (\<lambda>c. \<not> isWhitespace c) s"

fun wordsFrom :: "jsstring \<Rightarrow> jsstring \<Rightarrow> jsstring list" where
  "wordsFrom piece [] = (if piece = [] then [] else [piece])"
| "wordsFrom piece (c # cs) =
     (if isWhitespace c then (if piece = [] then wordsFrom [] cs else piece # wordsFrom [] cs)
      else wordsFrom (piece @ [c]) cs)"

definition wordsOf :: "jsstring \<Rightarrow> jsstring list" where
  "wordsOf s = wordsFrom [] s"

fun joinSpaces :: "jsstring list \<Rightarrow> jsstring" where
  "joinSpaces [] = []"
| "joinSpaces [chunk] = chunk"
| "joinSpaces (chunk # next # rest) = chunk @ [SPACE] @ joinSpaces (next # rest)"

section \<open>Where the chunker cuts a word\<close>

text \<open>
  The force split of lines 246 and 247 cuts the word at hand after \<open>MAX_CHUNK_SIZE\<close> code
  units. \<open>forceSplitWords words wordChunk\<close> lists the words on which it runs when the loop
  over \<open>words\<close> starts with \<open>wordChunk\<close>: it makes the tests of \<open>wordLoop\<close> and follows
  \<open>wordChunk\<close> as \<open>wordLoop\<close> does, and records \<open>word\<close> where \<open>wordLoop\<close> cuts it.
  \<open>forceSplits text\<close> lists them for the whole text: the loop over the words runs for the
  sentences longer than the limit, each time from an empty \<open>wordChunk\<close>.
\<close>

fun forceSplitWords :: "jsstring list \<Rightarrow> jsstring \<Rightarrow> jsstring list" where
  "forceSplitWords [] wordChunk = []"
| "forceSplitWords (word # words) wordChunk =
     (if length (wordChunk @ [SPACE] @ word) > MAX_CHUNK_SIZE then
        (if wordChunk \<noteq> [] then forceSplitWords words word
         else word # forceSplitWords words (drop MAX_CHUNK_SIZE word))
      else forceSplitWords words
             (if wordChunk \<noteq> [] then wordChunk @ [SPACE] @ word else word))"

definition forceSplits :: "jsstring \<Rightarrow> jsstring list" where
  "forceSplits text =
     (if length text \<le> MAX_CHUNK_SIZE then []
      else concat (map (\<lambda>sentence. forceSplitWords (splitWords sentence) [])
                    (filter (\<lambda>sentence. length sentence > MAX_CHUNK_SIZE)
                       (splitSentences text))))"


section \<open>Readings of a text, piece by piece\<close>

text \<open>
  Both \<open>content\<close> and \<open>wordsOf\<close> read a text piece by piece: whitespace between two parts
  separates what they give. \<open>wsHom\<close> names this property, and \<open>splitSafe W sentence\<close> says
  that the force splits in the sentence do not change what \<open>W\<close> reads.
\<close>

definition wsHom :: "(jsstring \<Rightarrow> 'b list) \<Rightarrow> bool" where
  "wsHom W \<longleftrightarrow> W [] = [] \<and> (\<forall>a c b. isWhitespace c \<longrightarrow> W (a @ c # b) = W a @ W b)"

definition splitSafe :: "(jsstring \<Rightarrow> 'b list) \<Rightarrow> jsstring \<Rightarrow> bool" where
  "splitSafe W sentence \<longleftrightarrow>
     (length sentence > MAX_CHUNK_SIZE \<longrightarrow>
        (\<forall>word\<in>set (forceSplitWords (splitWords sentence) []).
           W (take MAX_CHUNK_SIZE word) @ W (drop MAX_CHUNK_SIZE word) = W word))"

section \<open>Observations on a run\<close>

text \<open>\<open>speechCalls h\<close> counts the synthesis requests among the events \<open>h\<close>.\<close>

fun isSpeechCreate :: "event \<Rightarrow> bool" where
  "isSpeechCreate (SpeechCreate request) = True"
| "isSpeechCreate e = False"

definition speechCalls :: "event list \<Rightarrow> nat" where
  "speechCalls h = length (filter isSpeechCreate h)"

text \<open>
  \<open>loopState env config chunks h0 i\<close> is the state of the loop over the chunks at the start
  of iteration \<open>i\<close>, when the loop started with the events \<open>h0\<close> and every earlier
  conversion returned a path: the paths collected and the events so far.
\<close>

fun loopState ::
  "env \<Rightarrow> config \<Rightarrow> jsstring list \<Rightarrow> event list \<Rightarrow> nat \<Rightarrow> (jsstring list \<times> event list) option" where
  "loopState env config chunks h0 0 = Some ([], h0)"
| "loopState env config chunks h0 (Suc i) =
     (case loopState env config chunks h0 i of
        None \<Rightarrow> None
      | Some (chunkPaths, h) \<Rightarrow>
          (if i < length chunks then
             (case convertSingleChunk env config (chunks ! i) (i + 1) h of
                (Inl thrown, h') \<Rightarrow> None
              | (Inr chunkPath, h') \<Rightarrow>
                  Some (chunkPaths @ [chunkPath],
                        if i < length chunks - 1 then h' @ [Sleep 1000] else h'))
           else None))"

text \<open>The events of the conversion of chunk \<open>k\<close> when its first attempt succeeds.\<close>

definition segment :: "config \<Rightarrow> jsstring list \<Rightarrow> nat \<times> bytes \<Rightarrow> event list" where
  "segment config chunks = (\<lambda>(k, buffer).
     [SpeechCreate (speechRequestFor config (chunks ! k)),
      WriteFile (tempPathFor config (k + 1)) (Bytes buffer)])"

section \<open>Example inputs\<close>

text \<open>
  A configuration, and outside worlds: one where every call succeeds, one where every
  synthesis request fails with a given error, one where the external command fails, and
  one where the synthesis of one given chunk is refused.
\<close>

definition exampleConfig :: config where
  "exampleConfig =
     \<lparr>apiKey = js ''sk-test'', voice = js ''alloy'', audioFormat = js ''mp3'',
      outputBaseName = js ''output''\<rparr>"

definition obligingEnv :: env where
  "obligingEnv =
     \<lparr>speechCreate = (\<lambda>h request. Inr []), writeFile = (\<lambda>h path data. None),
      unlink = (\<lambda>h path. None), execAsync = (\<lambda>h cmd. None), stat = (\<lambda>h path. Inr 0)\<rparr>"

definition failingSpeechEnv :: "jserror \<Rightarrow> env" where
  "failingSpeechEnv error = obligingEnv\<lparr>speechCreate := (\<lambda>h request. Inl error)\<rparr>"

definition failingExecEnv :: "jserror \<Rightarrow> env" where
  "failingExecEnv error = obligingEnv\<lparr>execAsync := (\<lambda>h cmd. Some error)\<rparr>"

definition invalidKeyError :: jserror where
  "invalidKeyError =
     \<lparr>code = Some (js ''invalid_api_key''), message = js ''Incorrect API key provided''\<rparr>"

definition rateLimitError :: jserror where
  "rateLimitError =
     \<lparr>code = Some (js ''rate_limit_exceeded''), message = js ''rate limit reached for tts-1''\<rparr>"

definition rateLimitedOn :: "jsstring \<Rightarrow> env" where
  "rateLimitedOn chunk =
     obligingEnv\<lparr>speechCreate :=
       (\<lambda>h request. if req_input request = chunk then Inl rateLimitError else Inr [])\<rparr>"

text \<open>A text of three words of exactly \<open>MAX_CHUNK_SIZE\<close> letters each.\<close>

definition wordOf :: "jschar \<Rightarrow> jsstring" where
  "wordOf c = replicate MAX_CHUNK_SIZE c"

definition threeWords :: jsstring where
  "threeWords = wordOf 0x61 @ SPACE # wordOf 0x62 @ SPACE # wordOf 0x63"


text \<open>A text of \<open>MAX_CHUNK_SIZE + 1\<close> code units: two words of 2000 letters and a space.\<close>

definition twoWords :: jsstring where
  "twoWords = replicate 2000 0x61 @ SPACE # replicate 2000 0x62"

section \<open>Facts about the string operations\<close>

lemma isWhitespace_SPACE: "isWhitespace SPACE"
  by (simp add: isWhitespace_def SPACE_def)

lemma not_isTerminator_SPACE: "\<not> isTerminator SPACE"
  by (simp add: isTerminator_def SPACE_def)

lemma a_not_ws: "\<not> isWhitespace 0x61"
  by (simp add: isWhitespace_def)

lemma a_not_term: "\<not> isTerminator 0x61"
  by (simp add: isTerminator_def)

lemma b_not_ws: "\<not> isWhitespace 0x62"
  by (simp add: isWhitespace_def)

lemma b_not_term: "\<not> isTerminator 0x62"
  by (simp add: isTerminator_def)

lemma c_not_ws: "\<not> isWhitespace 0x63"
  by (simp add: isWhitespace_def)

lemma c_not_term: "\<not> isTerminator 0x63"
  by (simp add: isTerminator_def)

lemma trim_no_whitespace:
  assumes "\<forall>c\<in>set s. \<not> isWhitespace c"
  shows "trim s = s"
proof -
  have "dropWhile isWhitespace s = s"
    by (rule dropWhile_id) (use assms in auto)
  moreover have "dropWhile isWhitespace (rev s) = rev s"
    by (rule dropWhile_id) (use assms in auto)
  ultimately show ?thesis by (simp add: trim_def)
qed

lemma splitAfterTerminator_no_terminator:
  "\<forall>c\<in>set (piece @ s). \<not> isTerminator c \<Longrightarrow> splitAfterTerminator piece s = [piece @ s]"
  by (induction s arbitrary: piece) auto

lemma splitAfterTerminator_no_whitespace:
  "\<forall>c\<in>set s. \<not> isWhitespace c \<Longrightarrow> splitAfterTerminator piece s = [piece @ s]"
  by (induction s arbitrary: piece) auto

lemma splitOnSpace_no_space:
  "SPACE \<notin> set s \<Longrightarrow> splitOnSpace piece s = [piece @ s]"
  by (induction s arbitrary: piece) auto

lemma splitOnSpace_at_space:
  "SPACE \<notin> set s \<Longrightarrow> splitOnSpace piece (s @ SPACE # r) = (piece @ s) # splitOnSpace [] r"
  by (induction s arbitrary: piece) auto

lemma join_Cons: "join sep (s # rest) = (if rest = [] then s else s @ sep @ join sep rest)"
  by (cases rest) simp_all

section \<open>The chunker on concrete kinds of text\<close>

lemma chunkText_short: "length t \<le> MAX_CHUNK_SIZE \<Longrightarrow> chunkText t = [t]"
  by (simp add: chunkText_def)

lemma chunkText_no_whitespace:
  assumes len: "length t > MAX_CHUNK_SIZE" and nows: "\<forall>c\<in>set t. \<not> isWhitespace c"
  shows "chunkText t = [take MAX_CHUNK_SIZE t, drop MAX_CHUNK_SIZE t]"
proof -
  have nosp: "SPACE \<notin> set t" using nows isWhitespace_SPACE by blast
  have s: "splitSentences t = [t]"
    using splitAfterTerminator_no_whitespace[OF nows, of "[]"] by (simp add: splitSentences_def)
  have w: "splitWords t = [t]"
    using splitOnSpace_no_space[OF nosp, of "[]"] by (simp add: splitWords_def)
  have d: "drop MAX_CHUNK_SIZE t \<noteq> []" using len by simp
  have "\<forall>c\<in>set (drop MAX_CHUNK_SIZE t). \<not> isWhitespace c"
    using nows by (meson in_set_dropD)
  then have tr: "trim (drop MAX_CHUNK_SIZE t) = drop MAX_CHUNK_SIZE t"
    by (rule trim_no_whitespace)
  have tk: "take MAX_CHUNK_SIZE t \<noteq> []" using len by (auto simp: MAX_CHUNK_SIZE_def)
  show ?thesis
    using len d tr tk by (simp add: chunkText_def s w)
qed

lemma chunkText_9000: "chunkText (replicate 9000 0x61) = [replicate 4000 0x61, replicate 5000 0x61]"
  using chunkText_no_whitespace[of "replicate 9000 0x61"]
  by (simp add: MAX_CHUNK_SIZE_def a_not_ws)


lemma chunkText_short_then_long_word:
  "chunkText (0x61 # SPACE # replicate 5000 0x62) = [[0x61], replicate 5000 0x62]"
proof -
  let ?t = "0x61 # SPACE # replicate 5000 (0x62 :: jschar)"
  have s: "splitSentences ?t = [?t]"
    unfolding splitSentences_def
    using splitAfterTerminator_no_terminator[of "[]" ?t]
    by (simp add: a_not_term b_not_term not_isTerminator_SPACE)
  have w: "splitWords ?t = [[0x61], replicate 5000 0x62]"
    unfolding splitWords_def
    using splitOnSpace_at_space[of "[0x61]" "[]" "replicate 5000 0x62"]
          splitOnSpace_no_space[of "replicate 5000 0x62" "[]"]
    by (simp add: SPACE_def)
  have t1: "trim [0x61] = [0x61]"
    by (rule trim_no_whitespace) (simp add: a_not_ws)
  have t2: "trim (replicate 5000 0x62) = replicate 5000 0x62"
    by (rule trim_no_whitespace) (simp add: b_not_ws)
  show ?thesis
    by (simp add: chunkText_def s w) (simp add: MAX_CHUNK_SIZE_def t1 t2)
qed

lemma chunkText_threeWords: "chunkText threeWords = [wordOf 0x61, wordOf 0x62, wordOf 0x63]"
proof -
  have "\<forall>c\<in>set ([] @ threeWords). \<not> isTerminator c"
    by (auto simp: threeWords_def wordOf_def a_not_term b_not_term c_not_term
          not_isTerminator_SPACE)
  then have s: "splitSentences threeWords = [threeWords]"
    unfolding splitSentences_def
    using splitAfterTerminator_no_terminator[of "[]" threeWords] by simp
  have w3: "splitOnSpace [] (wordOf 0x63) = [wordOf 0x63]"
    using splitOnSpace_no_space[of "wordOf 0x63" "[]"] by (simp add: wordOf_def SPACE_def)
  have w2: "splitOnSpace [] (wordOf 0x62 @ SPACE # wordOf 0x63) = [wordOf 0x62, wordOf 0x63]"
    using splitOnSpace_at_space[of "wordOf 0x62" "[]" "wordOf 0x63"] w3
    by (simp add: wordOf_def SPACE_def)
  have w: "splitWords threeWords = [wordOf 0x61, wordOf 0x62, wordOf 0x63]"
    unfolding splitWords_def threeWords_def
    using splitOnSpace_at_space[of "wordOf 0x61" "[]" "wordOf 0x62 @ SPACE # wordOf 0x63"] w2
    by (simp add: wordOf_def SPACE_def)
  have len: "length threeWords > MAX_CHUNK_SIZE"
    by (simp add: threeWords_def wordOf_def)
  have wl: "wordLoop [wordOf 0x61, wordOf 0x62, wordOf 0x63] ([], []) =
            ([wordOf 0x61, wordOf 0x62, wordOf 0x63], [])"
    by (simp add: wordOf_def)
  show ?thesis
    using len by (simp add: chunkText_def s w wl wordOf_def MAX_CHUNK_SIZE_def)
qed



section \<open>What the chunks keep of the text\<close>

subsection \<open>Readings that whitespace separates\<close>

lemma wsHom_Nil: "wsHom W \<Longrightarrow> W [] = []"
  by (simp add: wsHom_def)

lemma wsHom_mid: "wsHom W \<Longrightarrow> isWhitespace c \<Longrightarrow> W (a @ c # b) = W a @ W b"
  by (simp add: wsHom_def)

lemma wsHom_Cons: "wsHom W \<Longrightarrow> isWhitespace c \<Longrightarrow> W (c # b) = W b"
  using wsHom_mid[of W c "[]" b] by (simp add: wsHom_Nil)

lemma wsHom_snoc: "wsHom W \<Longrightarrow> isWhitespace c \<Longrightarrow> W (a @ [c]) = W a"
  using wsHom_mid[of W c a "[]"] by (simp add: wsHom_Nil)

lemma wsHom_space: "wsHom W \<Longrightarrow> W (a @ SPACE # b) = W a @ W b"
  using wsHom_mid[of W SPACE a b] by (simp add: isWhitespace_SPACE)

lemma wsHom_dropWhile: "wsHom W \<Longrightarrow> W (dropWhile isWhitespace s) = W s"
  by (induction s) (simp_all add: wsHom_Cons)

lemma wsHom_drop_trailing: "wsHom W \<Longrightarrow> W (rev (dropWhile isWhitespace (rev s))) = W s"
  by (induction s rule: rev_induct) (simp_all add: wsHom_snoc)

lemma wsHom_trim: "wsHom W \<Longrightarrow> W (trim s) = W s"
  by (simp add: trim_def wsHom_drop_trailing wsHom_dropWhile)

lemma wsHom_splitAfterTerminator:
  "wsHom W \<Longrightarrow> concat (map W (splitAfterTerminator piece s)) = W (piece @ s)"
proof (induction piece s rule: splitAfterTerminator.induct)
  case (1 piece)
  then show ?case by simp
next
  case (2 piece c cs)
  show ?case
  proof (cases "piece \<noteq> [] \<and> isTerminator (last piece) \<and> isWhitespace c")
    case True
    then have "concat (map W (splitAfterTerminator piece (c # cs))) =
               W piece @ W (dropWhile isWhitespace cs)"
      using 2 by simp
    also have "\<dots> = W piece @ W cs" using 2(3) by (simp add: wsHom_dropWhile)
    also have "\<dots> = W (piece @ c # cs)" using True 2(3) by (simp add: wsHom_mid)
    finally show ?thesis .
  next
    case False
    then show ?thesis using 2 by auto
  qed
qed

lemma wsHom_splitOnSpace:
  "wsHom W \<Longrightarrow> concat (map W (splitOnSpace piece s)) = W (piece @ s)"
  by (induction s arbitrary: piece) (auto simp: wsHom_mid isWhitespace_SPACE)

lemma wsHom_splitWords: "wsHom W \<Longrightarrow> concat (map W (splitWords s)) = W s"
  by (simp add: splitWords_def wsHom_splitOnSpace)


lemma wsHom_drop_empty:
  "wsHom W \<Longrightarrow> concat (map W (filter (\<lambda>chunk. chunk \<noteq> []) chunks)) = concat (map W chunks)"
  by (induction chunks) (auto simp: wsHom_Nil)

subsection \<open>The two loops and the chunker\<close>

lemma wsHom_wordLoop:
  assumes "wsHom W"
    and "\<forall>word\<in>set (forceSplitWords words wordChunk).
           W (take MAX_CHUNK_SIZE word) @ W (drop MAX_CHUNK_SIZE word) = W word"
    and "wordLoop words (chunks, wordChunk) = (chunks', wordChunk')"
  shows "concat (map W chunks') @ W wordChunk' =
         concat (map W chunks) @ W wordChunk @ concat (map W words)"
  using assms(2,3)
proof (induction words arbitrary: chunks wordChunk)
  case Nil
  then show ?case by simp
next
  case (Cons word words)
  show ?case
  proof (cases "length (wordChunk @ [SPACE] @ word) > MAX_CHUNK_SIZE")
    case over: True
    show ?thesis
    proof (cases "wordChunk \<noteq> []")
      case True
      with over Cons.prems(2)
      have run: "wordLoop words (chunks @ [trim wordChunk], word) = (chunks', wordChunk')"
        by simp
      have rest: "\<forall>w\<in>set (forceSplitWords words word).
                    W (take MAX_CHUNK_SIZE w) @ W (drop MAX_CHUNK_SIZE w) = W w"
        using Cons.prems(1) over True by simp
      from Cons.IH[OF rest run] show ?thesis
        by (simp add: wsHom_trim[OF assms(1)])
    next
      case False
      with over Cons.prems(2)
      have run: "wordLoop words (chunks @ [take MAX_CHUNK_SIZE word], drop MAX_CHUNK_SIZE word) =
                 (chunks', wordChunk')"
        by simp
      have split: "W (take MAX_CHUNK_SIZE word) @ W (drop MAX_CHUNK_SIZE word) = W word"
        using Cons.prems(1) over False by simp
      have rest: "\<forall>w\<in>set (forceSplitWords words (drop MAX_CHUNK_SIZE word)).
                    W (take MAX_CHUNK_SIZE w) @ W (drop MAX_CHUNK_SIZE w) = W w"
        using Cons.prems(1) over False by simp
      from Cons.IH[OF rest run] show ?thesis
        using False split by (simp add: wsHom_Nil[OF assms(1)])
    qed
  next
    case fits: False
    with Cons.prems(2)
    have run: "wordLoop words
                 (chunks, if wordChunk \<noteq> [] then wordChunk @ [SPACE] @ word else word) =
               (chunks', wordChunk')"
      by simp
    have rest: "\<forall>w\<in>set (forceSplitWords words
                              (if wordChunk \<noteq> [] then wordChunk @ [SPACE] @ word else word)).
                  W (take MAX_CHUNK_SIZE w) @ W (drop MAX_CHUNK_SIZE w) = W w"
      using Cons.prems(1) fits by simp
    from Cons.IH[OF rest run] show ?thesis
      using wsHom_space[OF assms(1), of wordChunk word] by (simp add: wsHom_Nil[OF assms(1)])
  qed
qed

text \<open>
  Every word that \<open>forceSplitWords\<close> lists is cut by \<open>wordLoop\<close>: its first
  \<open>MAX_CHUNK_SIZE\<close> code units are one of the chunks.
\<close>

lemma wordLoop_keeps_chunks:
  "set chunks \<subseteq> set (fst (wordLoop words (chunks, wordChunk)))"
proof (induction words arbitrary: chunks wordChunk)
  case Nil
  then show ?case by simp
next
  case (Cons word words)
  show ?case
    using Cons.IH[of "chunks @ [trim wordChunk]" word]
          Cons.IH[of "chunks @ [take MAX_CHUNK_SIZE word]" "drop MAX_CHUNK_SIZE word"]
          Cons.IH[of chunks "wordChunk @ [SPACE] @ word"] Cons.IH[of chunks word]
    by auto
qed

lemma forceSplitWords_emitted:
  "word \<in> set (forceSplitWords words wordChunk) \<Longrightarrow>
   take MAX_CHUNK_SIZE word \<in> set (fst (wordLoop words (chunks, wordChunk)))"
proof (induction words arbitrary: chunks wordChunk)
  case Nil
  then show ?case by simp
next
  case (Cons w words)
  show ?case
  proof (cases "length (wordChunk @ [SPACE] @ w) > MAX_CHUNK_SIZE")
    case over: True
    show ?thesis
    proof (cases "wordChunk \<noteq> []")
      case True
      with over Cons.prems have "word \<in> set (forceSplitWords words w)" by simp
      from Cons.IH[OF this, of "chunks @ [trim wordChunk]"] over True show ?thesis by simp
    next
      case False
      with over Cons.prems consider "word = w"
        | "word \<in> set (forceSplitWords words (drop MAX_CHUNK_SIZE w))"
        by auto
      then show ?thesis
      proof cases
        case 1
        have "take MAX_CHUNK_SIZE w \<in> set (chunks @ [take MAX_CHUNK_SIZE w])" by simp
        then have "take MAX_CHUNK_SIZE w \<in>
                   set (fst (wordLoop words
                               (chunks @ [take MAX_CHUNK_SIZE w], drop MAX_CHUNK_SIZE w)))"
          using wordLoop_keeps_chunks by blast
        with 1 over False show ?thesis by simp
      next
        case 2
        from Cons.IH[OF this, of "chunks @ [take MAX_CHUNK_SIZE w]"] over False
        show ?thesis by simp
      qed
    qed
  next
    case fits: False
    with Cons.prems
    have "word \<in> set (forceSplitWords words
                         (if wordChunk \<noteq> [] then wordChunk @ [SPACE] @ w else w))"
      by simp
    from Cons.IH[OF this, of chunks] fits show ?thesis by simp
  qed
qed

lemma wsHom_sentenceLoop:
  assumes "wsHom W"
    and "\<forall>sentence\<in>set sentences. splitSafe W sentence"
    and "sentenceLoop sentences (chunks, currentChunk) = (chunks', currentChunk')"
  shows "concat (map W chunks') @ W currentChunk' =
         concat (map W chunks) @ W currentChunk @ concat (map W sentences)"
  using assms(2,3)
proof (induction sentences arbitrary: chunks currentChunk)
  case Nil
  then show ?case by simp
next
  case (Cons sentence sentences)
  have rest: "\<forall>sentence\<in>set sentences. splitSafe W sentence"
    using Cons.prems(1) by simp
  show ?case
  proof (cases "length sentence > MAX_CHUNK_SIZE")
    case long: True
    obtain chunks1 where c1: "chunks1 = (if currentChunk \<noteq> [] then chunks @ [trim currentChunk] else chunks)"
      by simp
    obtain chunks2 wordChunk where
      wl: "wordLoop (splitWords sentence) (chunks1, []) = (chunks2, wordChunk)"
      by (cases "wordLoop (splitWords sentence) (chunks1, [])") auto
    have safe: "\<forall>word\<in>set (forceSplitWords (splitWords sentence) []).
                  W (take MAX_CHUNK_SIZE word) @ W (drop MAX_CHUNK_SIZE word) = W word"
      using Cons.prems(1) long by (simp add: splitSafe_def)
    have inner: "concat (map W chunks2) @ W wordChunk = concat (map W chunks1) @ W sentence"
      using wsHom_wordLoop[OF assms(1) safe wl]
      by (simp add: wsHom_Nil[OF assms(1)] wsHom_splitWords[OF assms(1)])
    have c1W: "concat (map W chunks1) = concat (map W chunks) @ W currentChunk"
      by (simp add: c1 wsHom_trim[OF assms(1)] wsHom_Nil[OF assms(1)])
    have next_state: "sentenceLoop sentences (chunks2, wordChunk) = (chunks', currentChunk')"
      using Cons.prems(2) long wl c1 by (auto split: if_splits)
    from Cons.IH[OF rest next_state] show ?thesis
      using inner c1W by simp
  next
    case short: False
    show ?thesis
    proof (cases "length (currentChunk @ [SPACE] @ sentence) > MAX_CHUNK_SIZE")
      case True
      with short Cons.prems(2)
      have "sentenceLoop sentences
              (if currentChunk \<noteq> [] then chunks @ [trim currentChunk] else chunks, sentence) =
            (chunks', currentChunk')" by simp
      from Cons.IH[OF rest this] show ?thesis
        by (simp add: wsHom_trim[OF assms(1)] wsHom_Nil[OF assms(1)])
    next
      case False
      with short Cons.prems(2)
      have "sentenceLoop sentences
              (chunks, if currentChunk \<noteq> [] then currentChunk @ [SPACE] @ sentence else sentence) =
            (chunks', currentChunk')" by simp
      from Cons.IH[OF rest this] show ?thesis
        using wsHom_space[OF assms(1), of currentChunk sentence]
        by (simp add: wsHom_Nil[OF assms(1)])
    qed
  qed
qed

lemma wsHom_chunkText:
  assumes "wsHom W" and "\<forall>sentence\<in>set (splitSentences t). splitSafe W sentence"
  shows "concat (map W (chunkText t)) = W t"
proof (cases "length t \<le> MAX_CHUNK_SIZE")
  case True
  then show ?thesis by (simp add: chunkText_def)
next
  case False
  obtain chunks currentChunk where
    sl: "sentenceLoop (splitSentences t) ([], []) = (chunks, currentChunk)"
    by (cases "sentenceLoop (splitSentences t) ([], [])") auto
  have "concat (map W chunks) @ W currentChunk = concat (map W (splitSentences t))"
    using wsHom_sentenceLoop[OF assms(1,2) sl] by (simp add: wsHom_Nil[OF assms(1)])
  also have "\<dots> = W t"
    using wsHom_splitAfterTerminator[OF assms(1), of "[]" t] by (simp add: splitSentences_def)
  finally have total: "concat (map W chunks) @ W currentChunk = W t" .
  have "concat (map W (chunkText t)) =
        concat (map W (if currentChunk \<noteq> [] then chunks @ [trim currentChunk] else chunks))"
    using False by (simp add: chunkText_def sl wsHom_drop_empty[OF assms(1)])
  also have "\<dots> = concat (map W chunks) @ W currentChunk"
    by (simp add: wsHom_trim[OF assms(1)] wsHom_Nil[OF assms(1)])
  finally show ?thesis using total by simp
qed

subsection \<open>Content and words\<close>

lemma wsHom_content: "wsHom content"
  by (simp add: wsHom_def content_def)

lemma splitSafe_content: "splitSafe content sentence"
  unfolding splitSafe_def content_def
  by (metis append_take_drop_id filter_append)

lemma content_chunkText: "concat (map content (chunkText t)) = content t"
  by (rule wsHom_chunkText[OF wsHom_content]) (simp add: splitSafe_content)

lemma wordsFrom_mid:
  "isWhitespace c \<Longrightarrow> wordsFrom piece (a @ c # b) = wordsFrom piece a @ wordsFrom [] b"
  by (induction a arbitrary: piece) auto

lemma wsHom_wordsOf: "wsHom wordsOf"
  by (simp add: wsHom_def wordsOf_def wordsFrom_mid)

lemma wordsFrom_no_whitespace:
  "\<forall>c\<in>set s. \<not> isWhitespace c \<Longrightarrow> piece @ s \<noteq> [] \<Longrightarrow> wordsFrom piece s = [piece @ s]"
  by (induction s arbitrary: piece) auto

subsection \<open>The words of a sentence are no longer than the words of the text\<close>

lemma splitOnSpace_first_bound:
  "\<forall>w\<in>set (splitOnSpace piece s). length w \<le> n \<Longrightarrow> length piece \<le> n"
proof (induction s arbitrary: piece)
  case Nil
  then show ?case by simp
next
  case (Cons c cs)
  show ?case
  proof (cases "c = SPACE")
    case True
    with Cons.prems show ?thesis by simp
  next
    case False
    with Cons.prems have "\<forall>w\<in>set (splitOnSpace (piece @ [c]) cs). length w \<le> n" by simp
    from Cons.IH[OF this] show ?thesis by simp
  qed
qed

lemma splitOnSpace_prefix_bound:
  "\<forall>w\<in>set (splitOnSpace piece (a @ b)). length w \<le> n \<Longrightarrow>
   \<forall>w\<in>set (splitOnSpace piece a). length w \<le> n"
proof (induction a arbitrary: piece)
  case Nil
  then show ?case using splitOnSpace_first_bound[of piece b n] by simp
next
  case (Cons x a)
  then show ?case by (cases "x = SPACE") auto
qed

lemma splitOnSpace_piece:
  "splitOnSpace piece s = (piece @ hd (splitOnSpace [] s)) # tl (splitOnSpace [] s)"
proof (induction s arbitrary: piece)
  case Nil
  then show ?case by simp
next
  case (Cons c cs)
  show ?case
  proof (cases "c = SPACE")
    case True
    then show ?thesis by simp
  next
    case False
    then show ?thesis
      using Cons.IH[of "piece @ [c]"] Cons.IH[of "[c]"] by simp
  qed
qed

lemma splitOnSpace_empty_piece_bound:
  assumes "\<forall>w\<in>set (splitOnSpace piece s). length w \<le> n"
  shows "\<forall>w\<in>set (splitOnSpace [] s). length w \<le> n"
proof -
  have whole: "splitOnSpace piece s = (piece @ hd (splitOnSpace [] s)) # tl (splitOnSpace [] s)"
    by (rule splitOnSpace_piece)
  have start: "splitOnSpace [] s = hd (splitOnSpace [] s) # tl (splitOnSpace [] s)"
    using splitOnSpace_piece[of "[]" s] by simp
  have "length (piece @ hd (splitOnSpace [] s)) \<le> n"
    using assms whole by (metis list.set_intros(1))
  then have h: "length (hd (splitOnSpace [] s)) \<le> n" by simp
  have t: "\<forall>w\<in>set (tl (splitOnSpace [] s)). length w \<le> n"
    using assms whole by (metis list.set_intros(2))
  show ?thesis using h t start by (metis set_ConsD)
qed

lemma splitOnSpace_suffix_bound:
  "\<forall>w\<in>set (splitOnSpace piece (a @ b)). length w \<le> n \<Longrightarrow>
   \<forall>w\<in>set (splitOnSpace [] b). length w \<le> n"
proof (induction a arbitrary: piece)
  case Nil
  then show ?case using splitOnSpace_empty_piece_bound[of piece b n] by simp
next
  case (Cons x a)
  show ?case
  proof (cases "x = SPACE")
    case True
    with Cons.prems have "\<forall>w\<in>set (splitOnSpace [] (a @ b)). length w \<le> n" by simp
    from Cons.IH[OF this] show ?thesis .
  next
    case False
    with Cons.prems have "\<forall>w\<in>set (splitOnSpace (piece @ [x]) (a @ b)). length w \<le> n" by simp
    from Cons.IH[OF this] show ?thesis .
  qed
qed

lemma splitAfterTerminator_sublist:
  "sentence \<in> set (splitAfterTerminator piece s) \<Longrightarrow>
   \<exists>pre post. piece @ s = pre @ sentence @ post"
proof (induction piece s rule: splitAfterTerminator.induct)
  case (1 piece)
  then have "piece @ [] = [] @ sentence @ []" by simp
  then show ?case by blast
next
  case (2 piece c cs)
  show ?case
  proof (cases "piece \<noteq> [] \<and> isTerminator (last piece) \<and> isWhitespace c")
    case True
    with 2(3) consider "sentence = piece"
      | "sentence \<in> set (splitAfterTerminator [] (dropWhile isWhitespace cs))"
      by auto
    then show ?thesis
    proof cases
      case 1
      then have "piece @ c # cs = [] @ sentence @ (c # cs)" by simp
      then show ?thesis by blast
    next
      case 2
      from "2.IH"(1)[OF True 2] obtain pre post where
        "dropWhile isWhitespace cs = pre @ sentence @ post" by auto
      then have "piece @ c # cs =
                 (piece @ c # takeWhile isWhitespace cs @ pre) @ sentence @ post"
        by (metis append.assoc append_Cons takeWhile_dropWhile_id)
      then show ?thesis by blast
    qed
  next
    case False
    with 2(3) have "sentence \<in> set (splitAfterTerminator (piece @ [c]) cs)" by auto
    from "2.IH"(2)[OF False this] show ?thesis by simp
  qed
qed

lemma sentence_words_bound:
  assumes "\<forall>word\<in>set (splitWords t). length word \<le> n"
    and "sentence \<in> set (splitSentences t)"
  shows "\<forall>word\<in>set (splitWords sentence). length word \<le> n"
proof -
  obtain pre post where t: "t = pre @ sentence @ post"
    using splitAfterTerminator_sublist[of sentence "[]" t] assms(2)
    by (auto simp: splitSentences_def)
  have "\<forall>w\<in>set (splitOnSpace [] (pre @ (sentence @ post))). length w \<le> n"
    using assms(1) by (simp add: splitWords_def t)
  then have "\<forall>w\<in>set (splitOnSpace [] (sentence @ post)). length w \<le> n"
    by (rule splitOnSpace_suffix_bound)
  then have "\<forall>w\<in>set (splitOnSpace [] sentence). length w \<le> n"
    by (rule splitOnSpace_prefix_bound)
  then show ?thesis by (simp add: splitWords_def)
qed

lemma forceSplitWords_subset: "set (forceSplitWords words wordChunk) \<subseteq> set words"
  by (induction words arbitrary: wordChunk) (auto split: if_splits)

lemma splitSafe_short_words:
  assumes "wsHom W" and "\<forall>word\<in>set (splitWords sentence). length word \<le> MAX_CHUNK_SIZE"
  shows "splitSafe W sentence"
  using assms forceSplitWords_subset[of "splitWords sentence" "[]"]
  by (auto simp: splitSafe_def wsHom_Nil)

lemma wordsOf_chunkText_sentences:
  assumes "\<forall>sentence\<in>set (splitSentences t). \<forall>word\<in>set (splitWords sentence).
             length word \<le> MAX_CHUNK_SIZE"
  shows "concat (map wordsOf (chunkText t)) = wordsOf t"
proof (rule wsHom_chunkText[OF wsHom_wordsOf])
  show "\<forall>sentence\<in>set (splitSentences t). splitSafe wordsOf sentence"
    using assms splitSafe_short_words[OF wsHom_wordsOf] by blast
qed

lemma wordsOf_chunkText:
  assumes "\<forall>word\<in>set (splitWords t). length word \<le> MAX_CHUNK_SIZE"
  shows "concat (map wordsOf (chunkText t)) = wordsOf t"
  using sentence_words_bound[OF assms] by (intro wordsOf_chunkText_sentences) blast




subsection \<open>The force splits that are listed are made\<close>

text \<open>
  For every word that \<open>forceSplits\<close> lists, the first \<open>MAX_CHUNK_SIZE\<close> code units of the
  word are one of the chunks that \<open>chunkText\<close> returns.
\<close>

lemma forceSplitWords_long:
  "word \<in> set (forceSplitWords words wordChunk) \<Longrightarrow> MAX_CHUNK_SIZE \<le> length word"
  by (induction words arbitrary: wordChunk) (auto split: if_splits)

lemma sentenceLoop_keeps_chunks:
  "set chunks \<subseteq> set (fst (sentenceLoop sentences (chunks, currentChunk)))"
proof (induction sentences arbitrary: chunks currentChunk)
  case Nil
  then show ?case by simp
next
  case (Cons sentence sentences)
  show ?case
  proof (cases "length sentence > MAX_CHUNK_SIZE")
    case True
    obtain chunks1 currentChunk1 where
      c1: "(if currentChunk \<noteq> [] then (chunks @ [trim currentChunk], [])
            else (chunks, currentChunk)) = (chunks1, currentChunk1)"
      by (cases "if currentChunk \<noteq> [] then (chunks @ [trim currentChunk], [])
                 else (chunks, currentChunk)") auto
    obtain chunks2 wordChunk where
      wl: "wordLoop (splitWords sentence) (chunks1, []) = (chunks2, wordChunk)"
      by (cases "wordLoop (splitWords sentence) (chunks1, [])") auto
    have "set chunks \<subseteq> set chunks1"
      using c1 by (auto split: if_splits)
    also have "set chunks1 \<subseteq> set chunks2"
      using wordLoop_keeps_chunks[of chunks1 "splitWords sentence" "[]"] wl by simp
    also have "set chunks2 \<subseteq>
               set (fst (sentenceLoop sentences
                           (chunks2, if wordChunk \<noteq> [] then wordChunk else currentChunk1)))"
      by (rule Cons.IH)
    finally show ?thesis
      using True c1 wl by simp
  next
    case False
    then show ?thesis
      using Cons.IH[of "chunks @ [trim currentChunk]" sentence]
            Cons.IH[of chunks sentence]
            Cons.IH[of chunks "currentChunk @ [SPACE] @ sentence"]
      by auto
  qed
qed

lemma sentenceLoop_emits:
  assumes "sentence \<in> set sentences" and "length sentence > MAX_CHUNK_SIZE"
    and "word \<in> set (forceSplitWords (splitWords sentence) [])"
  shows "take MAX_CHUNK_SIZE word \<in> set (fst (sentenceLoop sentences (chunks, currentChunk)))"
  using assms(1)
proof (induction sentences arbitrary: chunks currentChunk)
  case Nil
  then show ?case by simp
next
  case (Cons s sentences)
  show ?case
  proof (cases "length s > MAX_CHUNK_SIZE")
    case True
    obtain chunks1 currentChunk1 where
      c1: "(if currentChunk \<noteq> [] then (chunks @ [trim currentChunk], [])
            else (chunks, currentChunk)) = (chunks1, currentChunk1)"
      by (cases "if currentChunk \<noteq> [] then (chunks @ [trim currentChunk], [])
                 else (chunks, currentChunk)") auto
    obtain chunks2 wordChunk where
      wl: "wordLoop (splitWords s) (chunks1, []) = (chunks2, wordChunk)"
      by (cases "wordLoop (splitWords s) (chunks1, [])") auto
    have step: "sentenceLoop (s # sentences) (chunks, currentChunk) =
                sentenceLoop sentences
                  (chunks2, if wordChunk \<noteq> [] then wordChunk else currentChunk1)"
      using True c1 wl by simp
    show ?thesis
    proof (cases "sentence = s")
      case same: True
      have "take MAX_CHUNK_SIZE word \<in> set chunks2"
        using forceSplitWords_emitted[OF assms(3), of chunks1] wl same by simp
      then show ?thesis
        using sentenceLoop_keeps_chunks[of chunks2 sentences] step by auto
    next
      case False
      with Cons.prems have "sentence \<in> set sentences" by simp
      from Cons.IH[OF this] step show ?thesis by simp
    qed
  next
    case False
    with assms(2) have "sentence \<noteq> s" by auto
    with Cons.prems have "sentence \<in> set sentences" by simp
    from Cons.IH[OF this] False show ?thesis by simp
  qed
qed

lemma forceSplits_emitted:
  assumes "word \<in> set (forceSplits t)"
  shows "take MAX_CHUNK_SIZE word \<in> set (chunkText t)"
proof -
  from assms have long: "length t > MAX_CHUNK_SIZE"
    by (auto simp: forceSplits_def split: if_splits)
  from assms long obtain sentence where
    s: "sentence \<in> set (splitSentences t)" "length sentence > MAX_CHUNK_SIZE"
       "word \<in> set (forceSplitWords (splitWords sentence) [])"
    by (auto simp: forceSplits_def)
  obtain chunks currentChunk where
    sl: "sentenceLoop (splitSentences t) ([], []) = (chunks, currentChunk)"
    by (cases "sentenceLoop (splitSentences t) ([], [])") auto
  have "take MAX_CHUNK_SIZE word \<in> set chunks"
    using sentenceLoop_emits[OF s, of "[]" "[]"] sl by simp
  moreover have "take MAX_CHUNK_SIZE word \<noteq> []"
    using forceSplitWords_long[OF s(3)] by (auto simp: MAX_CHUNK_SIZE_def)
  ultimately show ?thesis
    using long by (auto simp: chunkText_def sl)
qed

subsection \<open>Chunks that are not empty\<close>

lemma content_nonempty: "trim t \<noteq> [] \<Longrightarrow> content t \<noteq> []"
proof
  assume "content t = []"
  then have "\<forall>c\<in>set t. isWhitespace c"
    by (auto simp: content_def filter_empty_conv)
  then have d: "dropWhile isWhitespace t = []" by (metis dropWhile_eq_Nil_conv)
  have "trim t = []" unfolding trim_def d by simp
  moreover assume "trim t \<noteq> []"
  ultimately show False by simp
qed

lemma chunkText_chunks_nonempty: "t \<noteq> [] \<Longrightarrow> \<forall>chunk\<in>set (chunkText t). chunk \<noteq> []"
  by (auto simp: chunkText_def split: prod.splits)

lemma chunkText_nonempty:
  assumes "trim t \<noteq> []"
  shows "chunkText t \<noteq> []"
proof
  assume "chunkText t = []"
  then have "concat (map content (chunkText t)) = []" by simp
  then have "content t = []" by (simp add: content_chunkText)
  with content_nonempty[OF assms] show False by simp
qed

subsection \<open>Chunks within the limit\<close>

text \<open>
  When no word of the text, as \<open>split(' ')\<close> gives them, is longer than \<open>MAX_CHUNK_SIZE\<close>,
  both loops keep their pending chunk within the limit, and so is every chunk emitted.
\<close>

lemma length_trim_le: "length (trim s) \<le> length s"
proof -
  have "length (trim s) = length (dropWhile isWhitespace (rev (dropWhile isWhitespace s)))"
    by (simp add: trim_def)
  also have "\<dots> \<le> length (rev (dropWhile isWhitespace s))"
    by (rule length_dropWhile_le)
  also have "\<dots> \<le> length s"
    by (simp add: length_dropWhile_le)
  finally show ?thesis .
qed

lemma wordLoop_within_limit:
  assumes "\<forall>word\<in>set words. length word \<le> MAX_CHUNK_SIZE"
    and "\<forall>chunk\<in>set chunks. length chunk \<le> MAX_CHUNK_SIZE"
    and "length wordChunk \<le> MAX_CHUNK_SIZE"
    and "wordLoop words (chunks, wordChunk) = (chunks', wordChunk')"
  shows "(\<forall>chunk\<in>set chunks'. length chunk \<le> MAX_CHUNK_SIZE) \<and>
         length wordChunk' \<le> MAX_CHUNK_SIZE"
  using assms
proof (induction words arbitrary: chunks wordChunk)
  case Nil
  then show ?case by simp
next
  case (Cons word words)
  have w: "length word \<le> MAX_CHUNK_SIZE" and ws: "\<forall>word\<in>set words. length word \<le> MAX_CHUNK_SIZE"
    using Cons.prems(1) by simp_all
  have tr: "length (trim wordChunk) \<le> MAX_CHUNK_SIZE"
    using length_trim_le[of wordChunk] Cons.prems(3) by simp
  show ?case
  proof (cases "length (wordChunk @ [SPACE] @ word) > MAX_CHUNK_SIZE")
    case over: True
    show ?thesis
    proof (cases "wordChunk \<noteq> []")
      case True
      with over Cons.prems(4)
      have run: "wordLoop words (chunks @ [trim wordChunk], word) = (chunks', wordChunk')"
        by simp
      have "\<forall>chunk\<in>set (chunks @ [trim wordChunk]). length chunk \<le> MAX_CHUNK_SIZE"
        using Cons.prems(2) tr by simp
      from Cons.IH[OF ws this w run] show ?thesis .
    next
      case False
      with over Cons.prems(4)
      have run: "wordLoop words (chunks @ [take MAX_CHUNK_SIZE word], drop MAX_CHUNK_SIZE word) =
                 (chunks', wordChunk')"
        by simp
      have c: "\<forall>chunk\<in>set (chunks @ [take MAX_CHUNK_SIZE word]). length chunk \<le> MAX_CHUNK_SIZE"
        using Cons.prems(2) by simp
      have d: "length (drop MAX_CHUNK_SIZE word) \<le> MAX_CHUNK_SIZE"
        using w by simp
      from Cons.IH[OF ws c d run] show ?thesis .
    qed
  next
    case fits: False
    with Cons.prems(4)
    have run: "wordLoop words
                 (chunks, if wordChunk \<noteq> [] then wordChunk @ [SPACE] @ word else word) =
               (chunks', wordChunk')"
      by simp
    have "length (if wordChunk \<noteq> [] then wordChunk @ [SPACE] @ word else word) \<le> MAX_CHUNK_SIZE"
      using fits w by simp
    from Cons.IH[OF ws Cons.prems(2) this run] show ?thesis .
  qed
qed

lemma sentenceLoop_within_limit:
  assumes "\<forall>sentence\<in>set sentences. \<forall>word\<in>set (splitWords sentence).
             length word \<le> MAX_CHUNK_SIZE"
    and "\<forall>chunk\<in>set chunks. length chunk \<le> MAX_CHUNK_SIZE"
    and "length currentChunk \<le> MAX_CHUNK_SIZE"
    and "sentenceLoop sentences (chunks, currentChunk) = (chunks', currentChunk')"
  shows "(\<forall>chunk\<in>set chunks'. length chunk \<le> MAX_CHUNK_SIZE) \<and>
         length currentChunk' \<le> MAX_CHUNK_SIZE"
  using assms
proof (induction sentences arbitrary: chunks currentChunk)
  case Nil
  then show ?case by simp
next
  case (Cons sentence sentences)
  have rest: "\<forall>sentence\<in>set sentences. \<forall>word\<in>set (splitWords sentence).
                length word \<le> MAX_CHUNK_SIZE"
    using Cons.prems(1) by simp
  have tr: "length (trim currentChunk) \<le> MAX_CHUNK_SIZE"
    using length_trim_le[of currentChunk] Cons.prems(3) by simp
  show ?case
  proof (cases "length sentence > MAX_CHUNK_SIZE")
    case long: True
    let ?chunks1 = "if currentChunk \<noteq> [] then chunks @ [trim currentChunk] else chunks"
    obtain chunks2 wordChunk where
      wl: "wordLoop (splitWords sentence) (?chunks1, []) = (chunks2, wordChunk)"
      by (cases "wordLoop (splitWords sentence) (?chunks1, [])") auto
    have words: "\<forall>word\<in>set (splitWords sentence). length word \<le> MAX_CHUNK_SIZE"
      using Cons.prems(1) by simp
    have c1: "\<forall>chunk\<in>set ?chunks1. length chunk \<le> MAX_CHUNK_SIZE"
      using Cons.prems(2) tr by simp
    have inner: "(\<forall>chunk\<in>set chunks2. length chunk \<le> MAX_CHUNK_SIZE) \<and>
                 length wordChunk \<le> MAX_CHUNK_SIZE"
      using wordLoop_within_limit[OF words c1 _ wl] by simp
    have run: "sentenceLoop sentences (chunks2, wordChunk) = (chunks', currentChunk')"
      using Cons.prems(4) long wl by (auto split: if_splits)
    from Cons.IH[OF rest _ _ run] inner show ?thesis by simp
  next
    case short: False
    show ?thesis
    proof (cases "length (currentChunk @ [SPACE] @ sentence) > MAX_CHUNK_SIZE")
      case True
      with short Cons.prems(4)
      have run: "sentenceLoop sentences
                   (if currentChunk \<noteq> [] then chunks @ [trim currentChunk] else chunks, sentence) =
                 (chunks', currentChunk')"
        by simp
      have c: "\<forall>chunk\<in>set (if currentChunk \<noteq> [] then chunks @ [trim currentChunk] else chunks).
                 length chunk \<le> MAX_CHUNK_SIZE"
        using Cons.prems(2) tr by simp
      have s: "length sentence \<le> MAX_CHUNK_SIZE" using short by simp
      from Cons.IH[OF rest c s run] show ?thesis .
    next
      case False
      with short Cons.prems(4)
      have run: "sentenceLoop sentences
                   (chunks, if currentChunk \<noteq> [] then currentChunk @ [SPACE] @ sentence
                            else sentence) =
                 (chunks', currentChunk')"
        by simp
      have "length (if currentChunk \<noteq> [] then currentChunk @ [SPACE] @ sentence else sentence)
              \<le> MAX_CHUNK_SIZE"
        using False short by simp
      from Cons.IH[OF rest Cons.prems(2) this run] show ?thesis .
    qed
  qed
qed

lemma chunkText_within_limit_sentences:
  assumes "\<forall>sentence\<in>set (splitSentences t). \<forall>word\<in>set (splitWords sentence).
             length word \<le> MAX_CHUNK_SIZE"
  shows "\<forall>chunk\<in>set (chunkText t). length chunk \<le> MAX_CHUNK_SIZE"
proof (cases "length t \<le> MAX_CHUNK_SIZE")
  case True
  then show ?thesis by (simp add: chunkText_def)
next
  case False
  obtain chunks currentChunk where
    sl: "sentenceLoop (splitSentences t) ([], []) = (chunks, currentChunk)"
    by (cases "sentenceLoop (splitSentences t) ([], [])") auto
  have inv: "(\<forall>chunk\<in>set chunks. length chunk \<le> MAX_CHUNK_SIZE) \<and>
             length currentChunk \<le> MAX_CHUNK_SIZE"
    using sentenceLoop_within_limit[OF assms _ _ sl] by simp
  have "length (trim currentChunk) \<le> MAX_CHUNK_SIZE"
    using length_trim_le[of currentChunk] inv by simp
  with inv False show ?thesis
    by (auto simp: chunkText_def sl)
qed

lemma chunkText_within_limit:
  assumes "\<forall>word\<in>set (splitWords t). length word \<le> MAX_CHUNK_SIZE"
  shows "\<forall>chunk\<in>set (chunkText t). length chunk \<le> MAX_CHUNK_SIZE"
  using sentence_words_bound[OF assms] by (intro chunkText_within_limit_sentences) blast

subsection \<open>Two chunks just over the limit\<close>

text \<open>
  The words of a text joined with single spaces are never longer than the text. A text of
  \<open>MAX_CHUNK_SIZE + 1\<close> code units is either one piece for both splits, and then the force
  split cuts it before its last code unit, or all its pieces are within the limit, and
  then so are the chunks, which keep the words.
\<close>

lemma length_joinSpaces_Cons:
  "length (joinSpaces (chunk # rest)) \<le> length chunk + 1 + length (joinSpaces rest)"
  by (cases rest) simp_all

lemma length_joinSpaces_wordsFrom:
  "length (joinSpaces (wordsFrom piece s)) \<le> length piece + length s"
proof (induction s arbitrary: piece)
  case Nil
  then show ?case by simp
next
  case (Cons c cs)
  show ?case
  proof (cases "isWhitespace c")
    case True
    have rest: "length (joinSpaces (wordsFrom [] cs)) \<le> length cs"
      using Cons.IH[of "[]"] by simp
    show ?thesis
    proof (cases "piece = []")
      case True
      with \<open>isWhitespace c\<close> rest show ?thesis by simp
    next
      case False
      with \<open>isWhitespace c\<close> rest length_joinSpaces_Cons[of piece "wordsFrom [] cs"]
      show ?thesis by simp
    qed
  next
    case False
    then show ?thesis using Cons.IH[of "piece @ [c]"] by simp
  qed
qed

lemma length_normalized_le: "length (joinSpaces (wordsOf s)) \<le> length s"
  using length_joinSpaces_wordsFrom[of "[]" s] by (simp add: wordsOf_def)

lemma normalized_last:
  assumes "length (joinSpaces (wordsOf t)) = length t" and "t \<noteq> []"
  shows "\<not> isWhitespace (last t)"
proof
  assume ws: "isWhitespace (last t)"
  have "wordsOf t = wordsOf (butlast t @ [last t])"
    using assms(2) by simp
  also have "\<dots> = wordsOf (butlast t)"
    using ws by (rule wsHom_snoc[OF wsHom_wordsOf])
  finally have "length (joinSpaces (wordsOf t)) \<le> length (butlast t)"
    using length_normalized_le[of "butlast t"] by simp
  with assms show False by (cases t rule: rev_cases) simp_all
qed

lemma splitOnSpace_shorter:
  "x \<in> set (splitOnSpace piece s) \<Longrightarrow>
   length x < length piece + length s \<or> splitOnSpace piece s = [piece @ s]"
proof (induction s arbitrary: piece)
  case Nil
  then show ?case by simp
next
  case (Cons c cs)
  show ?case
  proof (cases "c = SPACE")
    case True
    with Cons.prems consider "x = piece" | "x \<in> set (splitOnSpace [] cs)" by auto
    then show ?thesis
    proof cases
      case 1
      then show ?thesis by simp
    next
      case 2
      from Cons.IH[OF 2] 2 have "length x \<le> length cs" by auto
      then show ?thesis by simp
    qed
  next
    case False
    with Cons.prems have "x \<in> set (splitOnSpace (piece @ [c]) cs)" by simp
    from Cons.IH[OF this] False show ?thesis by simp
  qed
qed

lemma splitAfterTerminator_shorter:
  "x \<in> set (splitAfterTerminator piece s) \<Longrightarrow>
   length x < length piece + length s \<or> splitAfterTerminator piece s = [piece @ s]"
proof (induction piece s rule: splitAfterTerminator.induct)
  case (1 piece)
  then show ?case by simp
next
  case (2 piece c cs)
  show ?case
  proof (cases "piece \<noteq> [] \<and> isTerminator (last piece) \<and> isWhitespace c")
    case True
    with 2(3) consider "x = piece"
      | "x \<in> set (splitAfterTerminator [] (dropWhile isWhitespace cs))"
      by auto
    then show ?thesis
    proof cases
      case 1
      then show ?thesis by simp
    next
      case 2
      from "2.IH"(1)[OF True 2] 2
      have "length x \<le> length (dropWhile isWhitespace cs)" by auto
      also have "\<dots> \<le> length cs" by (rule length_dropWhile_le)
      finally show ?thesis by simp
    qed
  next
    case False
    with 2(3) have "x \<in> set (splitAfterTerminator (piece @ [c]) cs)" by auto
    from "2.IH"(2)[OF False this] False show ?thesis by auto
  qed
qed

lemma chunkText_one_piece:
  assumes len: "length t > MAX_CHUNK_SIZE"
    and s: "splitSentences t = [t]" and w: "splitWords t = [t]"
  shows "chunkText t =
         filter (\<lambda>chunk. chunk \<noteq> []) [take MAX_CHUNK_SIZE t, trim (drop MAX_CHUNK_SIZE t)]"
proof -
  have d: "drop MAX_CHUNK_SIZE t \<noteq> []" using len by simp
  show ?thesis
    using len d by (simp add: chunkText_def s w)
qed

lemma chunkText_at_least_two:
  assumes len: "length t = MAX_CHUNK_SIZE + 1"
    and norm: "MAX_CHUNK_SIZE < length (joinSpaces (wordsOf t))"
  shows "2 \<le> length (chunkText t)"
proof (cases "splitSentences t = [t] \<and> splitWords t = [t]")
  case True
  have full: "length (joinSpaces (wordsOf t)) = length t"
    using len norm length_normalized_le[of t] by simp
  have ne: "t \<noteq> []" using len by auto
  have last: "\<not> isWhitespace (last t)"
    using normalized_last[OF full ne] .
  have "length (butlast t) = MAX_CHUNK_SIZE"
    using len by simp
  then have "drop MAX_CHUNK_SIZE (butlast t @ [last t]) = [last t]"
    by simp
  then have "drop MAX_CHUNK_SIZE t = [last t]"
    using ne by simp
  then have tr: "trim (drop MAX_CHUNK_SIZE t) = [last t]"
    using last by (simp add: trim_def)
  have tk: "take MAX_CHUNK_SIZE t \<noteq> []"
    using len by (auto simp: MAX_CHUNK_SIZE_def)
  show ?thesis
    using chunkText_one_piece[of t] True len tr tk by simp
next
  case False
  have words: "\<forall>sentence\<in>set (splitSentences t). \<forall>word\<in>set (splitWords sentence).
                 length word \<le> MAX_CHUNK_SIZE"
  proof (intro ballI)
    fix sentence word
    assume st: "sentence \<in> set (splitSentences t)" and wd: "word \<in> set (splitWords sentence)"
    have sb: "length sentence < length t \<or> splitSentences t = [t]"
      using splitAfterTerminator_shorter[of sentence "[]" t] st
      by (simp add: splitSentences_def)
    have wb: "length word < length sentence \<or> splitWords sentence = [sentence]"
      using splitOnSpace_shorter[of word "[]" sentence] wd
      by (simp add: splitWords_def)
    show "length word \<le> MAX_CHUNK_SIZE"
    proof (cases "splitSentences t = [t]")
      case True
      then have "sentence = t" using st by simp
      with True False wb len show ?thesis by auto
    next
      case no: False
      with sb have "length sentence \<le> MAX_CHUNK_SIZE" using len by simp
      moreover have "length word \<le> length sentence"
        using wb wd by auto
      ultimately show ?thesis by simp
    qed
  qed
  have limit: "\<forall>chunk\<in>set (chunkText t). length chunk \<le> MAX_CHUNK_SIZE"
    using words by (rule chunkText_within_limit_sentences)
  have kept: "concat (map wordsOf (chunkText t)) = wordsOf t"
    using words by (rule wordsOf_chunkText_sentences)
  show ?thesis
  proof (rule ccontr)
    assume "\<not> 2 \<le> length (chunkText t)"
    then consider "chunkText t = []" | chunk where "chunkText t = [chunk]"
      by (cases "chunkText t" rule: list.exhaust; cases "tl (chunkText t)") auto
    then show False
    proof cases
      case 1
      with kept have "wordsOf t = []" by simp
      with norm show False by simp
    next
      case 2
      with kept have "wordsOf t = wordsOf chunk" by simp
      then have "length (joinSpaces (wordsOf t)) \<le> length chunk"
        using length_normalized_le[of chunk] by simp
      moreover have "length chunk \<le> MAX_CHUNK_SIZE"
        using limit 2 by simp
      ultimately show False using norm by simp
    qed
  qed
qed

lemma wordsOf_twoWords: "wordsOf twoWords = [replicate 2000 0x61, replicate 2000 0x62]"
proof -
  have a: "wordsOf (replicate 2000 0x61) = [replicate 2000 0x61]"
    using wordsFrom_no_whitespace[of "replicate 2000 0x61" "[]"]
    by (simp add: wordsOf_def a_not_ws)
  have b: "wordsOf (replicate 2000 0x62) = [replicate 2000 0x62]"
    using wordsFrom_no_whitespace[of "replicate 2000 0x62" "[]"]
    by (simp add: wordsOf_def b_not_ws)
  show ?thesis
    unfolding twoWords_def by (simp only: wsHom_space[OF wsHom_wordsOf] a b) simp
qed

lemma length_twoWords: "length twoWords = MAX_CHUNK_SIZE + 1"
  by (simp add: twoWords_def MAX_CHUNK_SIZE_def)

lemma normalized_twoWords: "length (joinSpaces (wordsOf twoWords)) = MAX_CHUNK_SIZE + 1"
  by (simp add: wordsOf_twoWords MAX_CHUNK_SIZE_def)

section \<open>The claims about the chunker\<close>

text \<open>
  C1: every chunk has at most \<open>MAX_CHUNK_SIZE\<close> code units, a word over the limit being
  cut into pieces of the limit until the rest fits. The code cuts such a word once only,
  and it does not cut it at all when \<open>wordChunk\<close> already holds a word: a single word of
  9000 letters gives a second chunk of 5000 code units, and the text \<open>a\<close>, a space and a
  word of 5000 letters gives that word whole as the second chunk.
\<close>

theorem C1_oversized_chunk:
  "chunkText (replicate 9000 0x61) = [replicate 4000 0x61, replicate 5000 0x61] \<and>
   chunkText (0x61 # SPACE # replicate 5000 0x62) = [[0x61], replicate 5000 0x62] \<and>
   MAX_CHUNK_SIZE < length (replicate 5000 (0x61 :: jschar)) \<and>
   MAX_CHUNK_SIZE < length (replicate 5000 (0x62 :: jschar))"
  by (simp add: chunkText_9000 chunkText_short_then_long_word MAX_CHUNK_SIZE_def)




text \<open>
  C3, as the code has it. A text of at most \<open>MAX_CHUNK_SIZE\<close> code units is returned as
  the only chunk, unchanged: the early return does not trim it. A text of exactly
  \<open>MAX_CHUNK_SIZE + 1\<close> code units whose words, joined with single spaces, are still
  longer than \<open>MAX_CHUNK_SIZE\<close> gives at least two chunks.
\<close>

theorem C3_short_text_one_chunk_unchanged:
  "(length t \<le> MAX_CHUNK_SIZE \<longrightarrow> chunkText t = [t]) \<and>
   (length t = MAX_CHUNK_SIZE + 1 \<and> MAX_CHUNK_SIZE < length (joinSpaces (wordsOf t)) \<longrightarrow>
      2 \<le> length (chunkText t))"
  using chunkText_short[of t] chunkText_at_least_two[of t] by simp

theorem C3_short_text_one_chunk_unchanged_witness:
  "length [0x61 :: jschar] \<le> MAX_CHUNK_SIZE \<and> chunkText [0x61] = [[0x61]] \<and>
   length twoWords = MAX_CHUNK_SIZE + 1 \<and>
   MAX_CHUNK_SIZE < length (joinSpaces (wordsOf twoWords)) \<and>
   2 \<le> length (chunkText twoWords)"
  using C3_short_text_one_chunk_unchanged[of "[0x61]"]
        C3_short_text_one_chunk_unchanged[of twoWords]
        length_twoWords normalized_twoWords
  by (simp add: MAX_CHUNK_SIZE_def)

text \<open>
  C3, as the specification states it, fails twice. The text \<open>" a"\<close> is returned with its
  leading space, so the only chunk is not the trimmed text. The text made of
  \<open>MAX_CHUNK_SIZE\<close> letters \<open>a\<close> and one final space has \<open>MAX_CHUNK_SIZE + 1\<close> code units
  and gives one chunk only: the empty word after the space leaves nothing to emit.
\<close>

theorem C3_trimmed_and_two_chunks_counterexample:
  "chunkText [SPACE, 0x61] \<noteq> [trim [SPACE, 0x61]] \<and>
   \<not> 2 \<le> length (chunkText (replicate MAX_CHUNK_SIZE 0x61 @ [SPACE]))"
proof -
  have 1: "chunkText [SPACE, 0x61] = [[SPACE, 0x61]]"
    by (simp add: chunkText_def MAX_CHUNK_SIZE_def)
  have 2: "trim [SPACE, 0x61] = [0x61]"
    by (simp add: trim_def isWhitespace_SPACE a_not_ws)
  let ?t = "replicate MAX_CHUNK_SIZE (0x61 :: jschar) @ [SPACE]"
  have s: "splitSentences ?t = [?t]"
    unfolding splitSentences_def
    by (rule splitAfterTerminator_no_terminator[of "[]" ?t, simplified])
       (auto simp: a_not_term not_isTerminator_SPACE)
  have w: "splitWords ?t = [replicate MAX_CHUNK_SIZE 0x61, []]"
    unfolding splitWords_def
    using splitOnSpace_at_space[of "replicate MAX_CHUNK_SIZE 0x61" "[]" "[]"]
    by (simp add: SPACE_def)
  have 3: "chunkText ?t = [replicate MAX_CHUNK_SIZE 0x61]"
    by (simp add: chunkText_def s w) (simp add: MAX_CHUNK_SIZE_def)
  show ?thesis by (simp add: 1 2 3)
qed

text \<open>
  C4: for a text that is not empty after trimming (the caller rejects the others),
  \<open>chunkText\<close> returns at least one chunk and no chunk is empty.
\<close>

theorem C4_chunks_nonempty:
  "trim t \<noteq> [] \<Longrightarrow> chunkText t \<noteq> [] \<and> (\<forall>chunk\<in>set (chunkText t). chunk \<noteq> [])"
proof -
  assume nonblank: "trim t \<noteq> []"
  then have "t \<noteq> []" by (auto simp: trim_def)
  then have "\<forall>chunk\<in>set (chunkText t). chunk \<noteq> []"
    by (rule chunkText_chunks_nonempty)
  moreover have "chunkText t \<noteq> []"
    using nonblank by (rule chunkText_nonempty)
  ultimately show ?thesis by simp
qed

theorem C4_chunks_nonempty_witness:
  "trim (replicate 9000 0x61) \<noteq> [] \<and> chunkText (replicate 9000 0x61) \<noteq> [] \<and>
   list_all (\<lambda>chunk. chunk \<noteq> []) (chunkText (replicate 9000 0x61))"
proof -
  have t: "trim (replicate 9000 0x61) = replicate 9000 0x61"
    by (rule trim_no_whitespace) (simp add: a_not_ws)
  then have h: "trim (replicate 9000 0x61) \<noteq> []" by simp
  show ?thesis using h C4_chunks_nonempty[OF h] by (simp add: list_all_iff)
qed

section \<open>The conversion pipeline\<close>

text \<open>
  The two loops of the pipeline are unfolded step by step in the proofs, never by the
  simplifier on its own.
\<close>

declare convertAttempts.simps [simp del]

declare convertChunks.simps [simp del]

subsection \<open>One chunk: attempts and retries\<close>

lemma convertSingleChunk_unfold:
  "convertSingleChunk env config text chunkIndex h =
     (case attemptChunk env config text chunkIndex h of
        (Inr tempPath, h1) \<Rightarrow> (Inr tempPath, h1)
      | (Inl e1, h1) \<Rightarrow>
          (case attemptChunk env config text chunkIndex (h1 @ [Sleep 1000]) of
             (Inr tempPath, h2) \<Rightarrow> (Inr tempPath, h2)
           | (Inl e2, h2) \<Rightarrow>
               (case attemptChunk env config text chunkIndex (h2 @ [Sleep 2000]) of
                  (Inr tempPath, h3) \<Rightarrow> (Inr tempPath, h3)
                | (Inl e3, h3) \<Rightarrow> (Inl (Some e3), h3))))"
  by (simp add: convertSingleChunk_def convertAttempts.simps split: prod.splits sum.splits)

lemma attemptChunk_success:
  assumes "speechCreate env h (speechRequestFor config text) = Inr buffer"
    and "writeFile env (h @ [SpeechCreate (speechRequestFor config text)])
           (tempPathFor config chunkIndex) (Bytes buffer) = None"
  shows "attemptChunk env config text chunkIndex h =
         (Inr (tempPathFor config chunkIndex),
          h @ [SpeechCreate (speechRequestFor config text),
               WriteFile (tempPathFor config chunkIndex) (Bytes buffer)])"
  using assms by (simp add: attemptChunk_def Let_def)

lemma attemptChunk_speech_failure:
  assumes "speechCreate env h (speechRequestFor config text) = Inl error"
  shows "attemptChunk env config text chunkIndex h =
         (Inl error, h @ [SpeechCreate (speechRequestFor config text)])"
  using assms by (simp add: attemptChunk_def)

lemma attemptChunk_trace:
  "attemptChunk env config chunk chunkIndex h = (r, h') \<Longrightarrow>
   \<exists>t. h' = h @ t \<and> speechCalls t = 1"
  by (auto simp: attemptChunk_def Let_def speechCalls_def split: sum.splits option.splits)

lemma convertSingleChunk_first_success:
  "attemptChunk env config text chunkIndex h = (Inr tempPath, h') \<Longrightarrow>
   convertSingleChunk env config text chunkIndex h = (Inr tempPath, h')"
  by (simp add: convertSingleChunk_unfold)

lemma convertSingleChunk_three_failures:
  assumes "attemptChunk env config text chunkIndex h = (Inl e1, h1)"
    and "attemptChunk env config text chunkIndex (h1 @ [Sleep (1000 * 1)]) = (Inl e2, h2)"
    and "attemptChunk env config text chunkIndex (h2 @ [Sleep (1000 * 2)]) = (Inl e3, h3)"
  shows "convertSingleChunk env config text chunkIndex h = (Inl (Some e3), h3)"
  using assms by (simp add: convertSingleChunk_unfold)

lemma convertSingleChunk_persistent_failure:
  assumes "\<forall>h request. speechCreate env h request = Inl error"
  shows "convertSingleChunk env config chunk chunkIndex h =
         (Inl (Some error),
          h @ [SpeechCreate (speechRequestFor config chunk), Sleep 1000,
               SpeechCreate (speechRequestFor config chunk), Sleep 2000,
               SpeechCreate (speechRequestFor config chunk)])"
proof -
  have a: "\<And>h. attemptChunk env config chunk chunkIndex h =
                (Inl error, h @ [SpeechCreate (speechRequestFor config chunk)])"
    using assms by (simp add: attemptChunk_speech_failure)
  show ?thesis
    using convertSingleChunk_three_failures[OF a a a] by simp
qed

lemma speechCalls_append: "speechCalls (h @ h') = speechCalls h + speechCalls h'"
  by (simp add: speechCalls_def)

lemma speechCalls_attemptChunk:
  "speechCalls (snd (attemptChunk env config text chunkIndex h)) = speechCalls h + 1"
  by (simp add: attemptChunk_def Let_def speechCalls_def split: sum.splits option.splits)

lemma speechCalls_attemptChunk':
  "attemptChunk env config text chunkIndex h = (r, h') \<Longrightarrow> speechCalls h' = speechCalls h + 1"
  using speechCalls_attemptChunk[of env config "text" chunkIndex h] by simp

lemma speechCalls_Sleep: "speechCalls (h @ [Sleep n]) = speechCalls h"
  by (simp add: speechCalls_def)

lemma speechCalls_convertSingleChunk:
  "speechCalls (snd (convertSingleChunk env config text chunkIndex h)) \<le> speechCalls h + 3"
proof -
  obtain r1 h1 where a1: "attemptChunk env config text chunkIndex h = (r1, h1)"
    by (cases "attemptChunk env config text chunkIndex h") auto
  obtain r2 h2 where a2: "attemptChunk env config text chunkIndex (h1 @ [Sleep 1000]) = (r2, h2)"
    by (cases "attemptChunk env config text chunkIndex (h1 @ [Sleep 1000])") auto
  obtain r3 h3 where a3: "attemptChunk env config text chunkIndex (h2 @ [Sleep 2000]) = (r3, h3)"
    by (cases "attemptChunk env config text chunkIndex (h2 @ [Sleep 2000])") auto
  have c1: "speechCalls h1 = speechCalls h + 1"
    using speechCalls_attemptChunk'[OF a1] .
  have c2: "speechCalls h2 = speechCalls h + 2"
    using speechCalls_attemptChunk'[OF a2] c1 by (simp add: speechCalls_Sleep)
  have c3: "speechCalls h3 = speechCalls h + 3"
    using speechCalls_attemptChunk'[OF a3] c2 by (simp add: speechCalls_Sleep)
  show ?thesis
    using c1 c2 c3 by (simp add: convertSingleChunk_unfold a1 a2 a3 split: sum.splits)
qed

subsection \<open>The loop over the chunks\<close>

lemma convertChunks_failure:
  assumes "i < length chunks"
    and "convertSingleChunk env config (chunks ! i) (i + 1) h = (Inl thrown, h')"
  shows "convertChunks env config chunks i chunkPaths h = (Inl thrown, h')"
  using assms by (simp add: convertChunks.simps[of env config chunks i])

lemma convertChunks_step:
  "i < length chunks \<and>
   convertSingleChunk env config (chunks ! i) (i + 1) h = (Inr chunkPath, h') \<longrightarrow>
     convertChunks env config chunks i chunkPaths h =
       convertChunks env config chunks (i + 1) (chunkPaths @ [chunkPath])
         (if i < length chunks - 1 then h' @ [Sleep 1000] else h')"
  by (simp add: convertChunks.simps[of env config chunks i])

lemma loopState_convertChunks:
  "loopState env config chunks h0 i = Some (chunkPaths, h) \<Longrightarrow>
   convertChunks env config chunks 0 [] h0 = convertChunks env config chunks i chunkPaths h"
proof (induction i arbitrary: chunkPaths h)
  case 0
  then show ?case by simp
next
  case (Suc i)
  from Suc.prems obtain ps hi where
    prev: "loopState env config chunks h0 i = Some (ps, hi)"
    by (auto split: option.splits)
  from Suc.prems prev have i: "i < length chunks"
    by (auto split: if_splits)
  from Suc.prems prev i obtain p h' where
    conv: "convertSingleChunk env config (chunks ! i) (i + 1) hi = (Inr p, h')"
    and paths: "chunkPaths = ps @ [p]"
    and hist: "h = (if i < length chunks - 1 then h' @ [Sleep 1000] else h')"
    by (auto split: prod.splits sum.splits)
  have "convertChunks env config chunks 0 [] h0 = convertChunks env config chunks i ps hi"
    using Suc.IH[OF prev] .
  also have "\<dots> = convertChunks env config chunks (i + 1) chunkPaths h"
    using i conv paths hist by (simp add: convertChunks.simps[of env config chunks i])
  finally show ?case by simp
qed

lemma convertChunks_all_succeed:
  assumes sp: "\<forall>h request. \<exists>buffer. speechCreate env h request = Inr buffer"
    and wr: "\<forall>h path data. writeFile env h path data = None"
  shows "\<exists>buffers. length buffers = length chunks - i \<and>
           convertChunks env config chunks i chunkPaths h =
             (Inr (chunkPaths @ map (\<lambda>k. tempPathFor config (k + 1)) [i..<length chunks]),
              h @ join [Sleep 1000] (map (segment config chunks) (zip [i..<length chunks] buffers)))"
proof (induction "length chunks - i" arbitrary: i chunkPaths h)
  case 0
  then have "convertChunks env config chunks i chunkPaths h = (Inr chunkPaths, h)"
    by (simp add: convertChunks.simps[of env config chunks i])
  with 0 show ?case by simp
next
  case (Suc n)
  then have i: "i < length chunks" by simp
  obtain buffer where b: "speechCreate env h (speechRequestFor config (chunks ! i)) = Inr buffer"
    using sp by blast
  let ?seg = "[SpeechCreate (speechRequestFor config (chunks ! i)),
               WriteFile (tempPathFor config (i + 1)) (Bytes buffer)]"
  have conv: "convertSingleChunk env config (chunks ! i) (i + 1) h =
              (Inr (tempPathFor config (i + 1)), h @ ?seg)"
    by (rule convertSingleChunk_first_success, rule attemptChunk_success[OF b]) (simp add: wr)
  let ?h' = "if i < length chunks - 1 then (h @ ?seg) @ [Sleep 1000] else h @ ?seg"
  have step: "convertChunks env config chunks i chunkPaths h =
              convertChunks env config chunks (i + 1) (chunkPaths @ [tempPathFor config (i + 1)]) ?h'"
    using i conv by (simp add: convertChunks.simps[of env config chunks i])
  have n: "n = length chunks - (i + 1)" using Suc.hyps(2) by simp
  from Suc.hyps(1)[OF n, of "chunkPaths @ [tempPathFor config (i + 1)]" ?h']
  obtain buffers where len: "length buffers = length chunks - (i + 1)"
    and rest: "convertChunks env config chunks (i + 1) (chunkPaths @ [tempPathFor config (i + 1)]) ?h' =
      (Inr ((chunkPaths @ [tempPathFor config (i + 1)]) @
            map (\<lambda>k. tempPathFor config (k + 1)) [i + 1..<length chunks]),
       ?h' @ join [Sleep 1000] (map (segment config chunks) (zip [i + 1..<length chunks] buffers)))"
    by blast
  have upt: "[i..<length chunks] = i # [i + 1..<length chunks]"
    using i by (simp add: upt_conv_Cons)
  have empty: "(map (segment config chunks) (zip [i + 1..<length chunks] buffers) = []) =
               (\<not> i < length chunks - 1)"
    using len i by (cases buffers) (auto simp: upt_conv_Cons)
  have seg: "segment config chunks (i, buffer) = ?seg"
    by (simp add: segment_def)
  have "length (buffer # buffers) = length chunks - i"
    using len i by simp
  moreover have "convertChunks env config chunks i chunkPaths h =
      (Inr (chunkPaths @ map (\<lambda>k. tempPathFor config (k + 1)) [i..<length chunks]),
       h @ join [Sleep 1000]
             (map (segment config chunks) (zip [i..<length chunks] (buffer # buffers))))"
    unfolding step rest upt using empty seg by (simp add: join_Cons)
  ultimately show ?case by blast
qed

subsection \<open>The merger\<close>

lemma unlinkAll_ok:
  "\<forall>h path. unlink env h path = None \<Longrightarrow> unlinkAll env paths h = (None, h @ map Unlink paths)"
  by (induction paths arbitrary: h) simp_all

lemma unlinkAll_extends: "\<exists>rest. snd (unlinkAll env paths h) = h @ rest"
proof (induction paths arbitrary: h)
  case Nil
  then show ?case by simp
next
  case (Cons p paths)
  show ?case
  proof (cases "unlink env h p")
    case None
    with Cons[of "h @ [Unlink p]"] show ?thesis by auto
  next
    case (Some e)
    then show ?thesis by simp
  qed
qed

lemma mergeAudioFiles_starts_with_manifest:
  "\<exists>rest. snd (mergeAudioFiles env chunkPaths outputPath fmt h) =
           h @ WriteFile listPath (Text (listContentFor chunkPaths)) # rest"
proof -
  let ?h2 = "h @ [WriteFile listPath (Text (listContentFor chunkPaths)), Exec (ffmpegCmdFor outputPath)]"
  obtain rest where "snd (unlinkAll env chunkPaths (?h2 @ [Unlink listPath])) =
                     (?h2 @ [Unlink listPath]) @ rest"
    using unlinkAll_extends by blast
  then show ?thesis
    by (auto simp: mergeAudioFiles_def Let_def split: option.splits prod.splits)
qed

subsection \<open>The whole run\<close>

lemma convertTextToSpeech_single:
  assumes "length (chunkText text) = 1"
  shows "snd (convertTextToSpeech env config text h) =
         h @ SpeechCreate (speechRequestFor config text) #
           (case speechCreate env h (speechRequestFor config text) of
              Inl error \<Rightarrow> []
            | Inr buffer \<Rightarrow>
                WriteFile (outputBaseName config @ js ''.'' @ audioFormat config) (Bytes buffer) #
                (case writeFile env (h @ [SpeechCreate (speechRequestFor config text)])
                        (outputBaseName config @ js ''.'' @ audioFormat config) (Bytes buffer) of
                   Some error \<Rightarrow> []
                 | None \<Rightarrow> [Stat (outputBaseName config @ js ''.'' @ audioFormat config)]))"
  using assms
  by (simp add: convertTextToSpeech_def convertTextToSpeech_try_def outputPathFor_def Let_def
           split: sum.splits option.splits)

lemma convertTextToSpeech_persistent_failure:
  assumes fail: "\<forall>h request. speechCreate env h request = Inl error"
    and chunks: "chunkText text \<noteq> []"
  shows "convertTextToSpeech env config text h =
         (Inl (convertTextToSpeech_catch error),
          h @ (if length (chunkText text) = 1 then [SpeechCreate (speechRequestFor config text)]
               else [SpeechCreate (speechRequestFor config (chunkText text ! 0)), Sleep 1000,
                     SpeechCreate (speechRequestFor config (chunkText text ! 0)), Sleep 2000,
                     SpeechCreate (speechRequestFor config (chunkText text ! 0))]))"
proof (cases "length (chunkText text) = 1")
  case True
  then show ?thesis
    using fail
    by (simp add: convertTextToSpeech_def convertTextToSpeech_try_def Let_def)
next
  case False
  have pos: "0 < length (chunkText text)" using chunks by simp
  have "convertChunks env config (chunkText text) 0 [] h =
        (Inl (Some error),
         h @ [SpeechCreate (speechRequestFor config (chunkText text ! 0)), Sleep 1000,
              SpeechCreate (speechRequestFor config (chunkText text ! 0)), Sleep 2000,
              SpeechCreate (speechRequestFor config (chunkText text ! 0))])"
    using pos convertSingleChunk_persistent_failure[OF fail, of config "chunkText text ! 0" "0 + 1" h]
    by (rule convertChunks_failure)
  then show ?thesis
    using False
    by (simp add: convertTextToSpeech_def convertTextToSpeech_try_def Let_def)
qed

lemma convertTextToSpeech_all_succeed:
  assumes multi: "1 < length (chunkText text)"
    and sp: "\<forall>h request. \<exists>buffer. speechCreate env h request = Inr buffer"
    and wr: "\<forall>h path data. writeFile env h path data = None"
  shows "\<exists>buffers rest.
           length buffers = length (chunkText text) \<and>
           snd (convertTextToSpeech env config text h) =
             h @ join [Sleep 1000]
                   (map (segment config (chunkText text))
                      (zip [0..<length (chunkText text)] buffers)) @
             WriteFile listPath
               (Text (listContentFor
                  (map (\<lambda>k. tempPathFor config (k + 1)) [0..<length (chunkText text)]))) # rest"
proof -
  let ?chunks = "chunkText text"
  let ?paths = "map (\<lambda>k. tempPathFor config (k + 1)) [0..<length ?chunks]"
  obtain buffers where len: "length buffers = length ?chunks"
    and loop: "convertChunks env config ?chunks 0 [] h =
               (Inr ?paths,
                h @ join [Sleep 1000] (map (segment config ?chunks) (zip [0..<length ?chunks] buffers)))"
    using convertChunks_all_succeed[OF sp wr, of ?chunks 0 config "[]" h] by auto
  let ?h' = "h @ join [Sleep 1000] (map (segment config ?chunks) (zip [0..<length ?chunks] buffers))"
  obtain rest where merge:
    "snd (mergeAudioFiles env ?paths (outputPathFor config) (audioFormat config) ?h') =
     ?h' @ WriteFile listPath (Text (listContentFor ?paths)) # rest"
    using mergeAudioFiles_starts_with_manifest by blast
  obtain r where r: "mergeAudioFiles env ?paths (outputPathFor config) (audioFormat config) ?h' =
                     (r, ?h' @ WriteFile listPath (Text (listContentFor ?paths)) # rest)"
    using merge by (metis prod.collapse)
  have "\<exists>rest'. snd (convertTextToSpeech env config text h) =
                 (?h' @ WriteFile listPath (Text (listContentFor ?paths)) # rest) @ rest'"
    using multi loop r
    by (cases r)
       (auto simp: convertTextToSpeech_def convertTextToSpeech_try_def Let_def
             split: sum.splits option.splits)
  then obtain rest' where
    "snd (convertTextToSpeech env config text h) =
     ?h' @ WriteFile listPath (Text (listContentFor ?paths)) # (rest @ rest')"
    by auto
  with len show ?thesis by auto
qed

lemma three_failures_then_abort:
  assumes "length (chunkText text) \<noteq> 1"
    and "i < length (chunkText text)"
    and "loopState env config (chunkText text) h0 i = Some (chunkPaths, h)"
    and "attemptChunk env config (chunkText text ! i) (i + 1) h = (Inl e1, h1)"
    and "attemptChunk env config (chunkText text ! i) (i + 1) (h1 @ [Sleep (1000 * 1)]) = (Inl e2, h2)"
    and "attemptChunk env config (chunkText text ! i) (i + 1) (h2 @ [Sleep (1000 * 2)]) = (Inl e3, h3)"
  shows "convertSingleChunk env config (chunkText text ! i) (i + 1) h = (Inl (Some e3), h3) \<and>
         convertTextToSpeech env config text h0 = (Inl (convertTextToSpeech_catch e3), h3) \<and>
         (\<exists>t1 t2 t3. h3 = h @ t1 @ [Sleep 1000] @ t2 @ [Sleep 2000] @ t3 \<and>
            speechCalls t1 = 1 \<and> speechCalls t2 = 1 \<and> speechCalls t3 = 1)"
proof -
  have single: "convertSingleChunk env config (chunkText text ! i) (i + 1) h = (Inl (Some e3), h3)"
    using assms(4-6) by (rule convertSingleChunk_three_failures)
  have "convertChunks env config (chunkText text) 0 [] h0 =
        convertChunks env config (chunkText text) i chunkPaths h"
    using assms(3) by (rule loopState_convertChunks)
  also have "\<dots> = (Inl (Some e3), h3)"
    using assms(2) single by (rule convertChunks_failure)
  finally have "convertTextToSpeech_try env config text h0 = (Inl (Some e3), h3)"
    using assms(1) by (simp add: convertTextToSpeech_try_def)
  then have whole: "convertTextToSpeech env config text h0 =
                    (Inl (convertTextToSpeech_catch e3), h3)"
    by (simp add: convertTextToSpeech_def)
  obtain t1 where t1: "h1 = h @ t1" "speechCalls t1 = 1"
    using attemptChunk_trace[OF assms(4)] by blast
  obtain t2 where t2: "h2 = (h1 @ [Sleep (1000 * 1)]) @ t2" "speechCalls t2 = 1"
    using attemptChunk_trace[OF assms(5)] by blast
  obtain t3 where t3: "h3 = (h2 @ [Sleep (1000 * 2)]) @ t3" "speechCalls t3 = 1"
    using attemptChunk_trace[OF assms(6)] by blast
  have "h3 = h @ t1 @ [Sleep 1000] @ t2 @ [Sleep 2000] @ t3"
    using t1(1) t2(1) t3(1) by simp
  with t1(2) t2(2) t3(2) single whole show ?thesis by blast
qed

subsection \<open>The dispatch of the errors\<close>

lemma catch_categories:
  "convertTextToSpeech_catch error =
     (if code error = Some (js ''invalid_api_key'') then
        new_Error (js ''Invalid OpenAI API key'')
      else if code error = Some (js ''insufficient_quota'') then
        new_Error (js ''OpenAI API quota exceeded'')
      else if str_includes (message error) (js ''rate limit'') then
        new_Error (js ''OpenAI API rate limit exceeded. Please try again later.'')
      else if str_includes (message error) (js ''ffmpeg'') then error
      else new_Error (js ''OpenAI API error: '' @ message error))"
  by (simp add: convertTextToSpeech_catch_def)

lemma mergeFailure_includes:
  "str_includes (message mergeFailure) (js ''ffmpeg'') \<and>
   \<not> str_includes (message mergeFailure) (js ''rate limit'') \<and> code mergeFailure = None"
  by (simp add: mergeFailure_def new_Error_def js_def)

section \<open>The claims about the pipeline\<close>

text \<open>
  C5, as the code has it. The segment converter does not look at the kind of an error: a
  synthesis service that answers every request with the same error, of whatever kind, is
  asked three times for a chunk, with delays of 1000 and 2000 milliseconds, before the
  error leaves \<open>convertSingleChunk\<close>. Only the direct conversion of a single chunk asks
  once. The pipeline then reports the error through the dispatch, which gives each of the
  three kinds (invalid key, quota, rate limit) its own message.
\<close>

theorem C5_categorized_errors_retried_then_reported:
  "((\<forall>h request. speechCreate env h request = Inl error) \<and> chunkText text \<noteq> [] \<longrightarrow>
      convertSingleChunk env config chunk chunkIndex h =
        (Inl (Some error),
         h @ [SpeechCreate (speechRequestFor config chunk), Sleep 1000,
              SpeechCreate (speechRequestFor config chunk), Sleep 2000,
              SpeechCreate (speechRequestFor config chunk)]) \<and>
      convertTextToSpeech env config text h =
        (Inl (convertTextToSpeech_catch error),
         h @ (if length (chunkText text) = 1 then [SpeechCreate (speechRequestFor config text)]
              else [SpeechCreate (speechRequestFor config (chunkText text ! 0)), Sleep 1000,
                    SpeechCreate (speechRequestFor config (chunkText text ! 0)), Sleep 2000,
                    SpeechCreate (speechRequestFor config (chunkText text ! 0))]))) \<and>
   (code error = Some (js ''invalid_api_key'') \<longrightarrow>
      convertTextToSpeech_catch error = new_Error (js ''Invalid OpenAI API key'')) \<and>
   (code error = Some (js ''insufficient_quota'') \<longrightarrow>
      convertTextToSpeech_catch error = new_Error (js ''OpenAI API quota exceeded'')) \<and>
   (code error \<noteq> Some (js ''invalid_api_key'') \<and> code error \<noteq> Some (js ''insufficient_quota'') \<and>
    str_includes (message error) (js ''rate limit'') \<longrightarrow>
      convertTextToSpeech_catch error =
        new_Error (js ''OpenAI API rate limit exceeded. Please try again later.''))"
proof -
  have diff: "js ''insufficient_quota'' \<noteq> js ''invalid_api_key''"
    by (simp add: js_def)
  show ?thesis
    using convertSingleChunk_persistent_failure[of env error config chunk chunkIndex h]
          convertTextToSpeech_persistent_failure[of env error "text" config h] diff
    by (simp add: catch_categories)
qed

theorem C5_categorized_errors_retried_then_reported_witness:
  "(\<forall>h request. speechCreate (failingSpeechEnv invalidKeyError) h request = Inl invalidKeyError) \<and>
   chunkText threeWords \<noteq> [] \<and>
   code invalidKeyError = Some (js ''invalid_api_key'') \<and>
   convertTextToSpeech (failingSpeechEnv invalidKeyError) exampleConfig threeWords [] =
     (Inl (new_Error (js ''Invalid OpenAI API key'')),
      [SpeechCreate (speechRequestFor exampleConfig (wordOf 0x61)), Sleep 1000,
       SpeechCreate (speechRequestFor exampleConfig (wordOf 0x61)), Sleep 2000,
       SpeechCreate (speechRequestFor exampleConfig (wordOf 0x61))])"
proof -
  have fail: "\<forall>h request. speechCreate (failingSpeechEnv invalidKeyError) h request =
                Inl invalidKeyError"
    by (simp add: failingSpeechEnv_def)
  have code: "code invalidKeyError = Some (js ''invalid_api_key'')"
    by (simp add: invalidKeyError_def)
  show ?thesis
    using C5_categorized_errors_retried_then_reported
            [of "failingSpeechEnv invalidKeyError" invalidKeyError threeWords exampleConfig
                "wordOf 0x61" 1 "[]"]
          fail code
    by (simp add: chunkText_threeWords)
qed

text \<open>
  C5, as the specification states it, fails: with a service that refuses the key on
  every request, the conversion of one chunk makes three requests, not one.
\<close>

theorem C5_never_retried_counterexample:
  "code invalidKeyError = Some (js ''invalid_api_key'') \<and>
   convertSingleChunk (failingSpeechEnv invalidKeyError) exampleConfig (js ''hello'') 1 [] =
     (Inl (Some invalidKeyError),
      [SpeechCreate (speechRequestFor exampleConfig (js ''hello'')), Sleep 1000,
       SpeechCreate (speechRequestFor exampleConfig (js ''hello'')), Sleep 2000,
       SpeechCreate (speechRequestFor exampleConfig (js ''hello''))]) \<and>
   speechCalls (snd (convertSingleChunk (failingSpeechEnv invalidKeyError) exampleConfig
                       (js ''hello'') 1 [])) = 3"
proof -
  have fail: "\<forall>h request. speechCreate (failingSpeechEnv invalidKeyError) h request =
                Inl invalidKeyError"
    by (simp add: failingSpeechEnv_def)
  show ?thesis
    using convertSingleChunk_persistent_failure[OF fail, of exampleConfig "js ''hello''" 1 "[]"]
    by (simp add: invalidKeyError_def speechCalls_def)
qed

text \<open>
  C6: a chunk is requested at most three times. When the loop over the chunks has reached
  chunk \<open>i\<close> and the three attempts on it fail, the second after a delay of 1000 and the
  third after a delay of 2000 milliseconds, \<open>convertSingleChunk\<close> throws the error of the
  third attempt, and the run of the pipeline ends there with the dispatched error: its
  events are those up to the third attempt, so no later chunk is requested.
\<close>

theorem C6_three_attempts_then_abort:
  "speechCalls (snd (convertSingleChunk env config chunk chunkIndex h)) \<le> speechCalls h + 3 \<and>
   (length (chunkText text) \<noteq> 1 \<and> i < length (chunkText text) \<and>
    loopState env config (chunkText text) h0 i = Some (chunkPaths, h) \<and>
    attemptChunk env config (chunkText text ! i) (i + 1) h = (Inl e1, h1) \<and>
    attemptChunk env config (chunkText text ! i) (i + 1) (h1 @ [Sleep (1000 * 1)]) = (Inl e2, h2) \<and>
    attemptChunk env config (chunkText text ! i) (i + 1) (h2 @ [Sleep (1000 * 2)]) = (Inl e3, h3)
    \<longrightarrow>
      convertSingleChunk env config (chunkText text ! i) (i + 1) h = (Inl (Some e3), h3) \<and>
      convertTextToSpeech env config text h0 = (Inl (convertTextToSpeech_catch e3), h3) \<and>
      (\<exists>t1 t2 t3. h3 = h @ t1 @ [Sleep 1000] @ t2 @ [Sleep 2000] @ t3 \<and>
         speechCalls t1 = 1 \<and> speechCalls t2 = 1 \<and> speechCalls t3 = 1))"
  using speechCalls_convertSingleChunk[of env config chunk chunkIndex h]
        three_failures_then_abort[of "text" i env config h0 chunkPaths h e1 h1 e2 h2 e3 h3]
  by blast

theorem C6_three_attempts_then_abort_witness:
  "length (chunkText threeWords) \<noteq> 1 \<and> 1 < length (chunkText threeWords) \<and>
   loopState (rateLimitedOn (wordOf 0x62)) exampleConfig (chunkText threeWords) [] 1 =
     Some ([tempPathFor exampleConfig 1],
           [SpeechCreate (speechRequestFor exampleConfig (wordOf 0x61)),
            WriteFile (tempPathFor exampleConfig 1) (Bytes []), Sleep 1000]) \<and>
   convertTextToSpeech (rateLimitedOn (wordOf 0x62)) exampleConfig threeWords [] =
     (Inl (new_Error (js ''OpenAI API rate limit exceeded. Please try again later.'')),
      [SpeechCreate (speechRequestFor exampleConfig (wordOf 0x61)),
       WriteFile (tempPathFor exampleConfig 1) (Bytes []),
       Sleep 1000,
       SpeechCreate (speechRequestFor exampleConfig (wordOf 0x62)),
       Sleep 1000,
       SpeechCreate (speechRequestFor exampleConfig (wordOf 0x62)),
       Sleep 2000,
       SpeechCreate (speechRequestFor exampleConfig (wordOf 0x62))])"
proof -
  let ?env = "rateLimitedOn (wordOf 0x62)"
  let ?A = "SpeechCreate (speechRequestFor exampleConfig (wordOf 0x61))"
  let ?B = "SpeechCreate (speechRequestFor exampleConfig (wordOf 0x62))"
  let ?h = "[?A, WriteFile (tempPathFor exampleConfig 1) (Bytes []), Sleep 1000]"
  have ab: "wordOf 0x61 \<noteq> wordOf 0x62"
    by (simp add: wordOf_def MAX_CHUNK_SIZE_def)
  have multi: "length (chunkText threeWords) \<noteq> 1" and i: "1 < length (chunkText threeWords)"
    by (simp_all add: chunkText_threeWords)
  have first: "convertSingleChunk ?env exampleConfig (wordOf 0x61) 1 [] =
               (Inr (tempPathFor exampleConfig 1),
                [?A, WriteFile (tempPathFor exampleConfig 1) (Bytes [])])"
    using ab
    by (intro convertSingleChunk_first_success)
       (simp add: attemptChunk_def Let_def rateLimitedOn_def obligingEnv_def speechRequestFor_def)
  have reached: "loopState ?env exampleConfig (chunkText threeWords) [] 1 =
                 Some ([tempPathFor exampleConfig 1], ?h)"
    using first by (simp add: chunkText_threeWords)
  have fail: "\<And>h. attemptChunk ?env exampleConfig (chunkText threeWords ! 1) (1 + 1) h =
                   (Inl rateLimitError, h @ [?B])"
    by (simp add: chunkText_threeWords attemptChunk_def Let_def rateLimitedOn_def
          obligingEnv_def speechRequestFor_def)
  have caught: "convertTextToSpeech_catch rateLimitError =
                new_Error (js ''OpenAI API rate limit exceeded. Please try again later.'')"
    by (simp add: convertTextToSpeech_catch_def rateLimitError_def js_def)
  have "convertTextToSpeech ?env exampleConfig threeWords [] =
        (Inl (convertTextToSpeech_catch rateLimitError),
         ((?h @ [?B]) @ [Sleep (1000 * 1)] @ [?B]) @ [Sleep (1000 * 2)] @ [?B])"
    using C6_three_attempts_then_abort[of ?env exampleConfig "wordOf 0x62" 2 ?h threeWords 1 "[]"
                 "[tempPathFor exampleConfig 1]" rateLimitError "?h @ [?B]" rateLimitError
                 "(?h @ [?B]) @ [Sleep (1000 * 1)] @ [?B]" rateLimitError
                 "((?h @ [?B]) @ [Sleep (1000 * 1)] @ [?B]) @ [Sleep (1000 * 2)] @ [?B]"]
          multi i reached fail
    by simp
  with multi i reached caught show ?thesis by simp
qed

text \<open>
  C7: when the manifest is written, the external command succeeds and the deletions
  succeed, the merger deletes the manifest and then every fragment, in order; when the
  external command fails, the merger throws the one error that asks for ffmpeg to be
  installed, and it deletes nothing.
\<close>

theorem C7_merger_cleanup:
  "(writeFile env h listPath (Text (listContentFor chunkPaths)) = None \<and>
    execAsync env (h @ [WriteFile listPath (Text (listContentFor chunkPaths))])
      (ffmpegCmdFor outputPath) = None \<and>
    (\<forall>h' path. unlink env h' path = None) \<longrightarrow>
      mergeAudioFiles env chunkPaths outputPath fmt h =
        (Inr (),
         h @ [WriteFile listPath (Text (listContentFor chunkPaths)),
              Exec (ffmpegCmdFor outputPath), Unlink listPath] @ map Unlink chunkPaths)) \<and>
   (writeFile env h listPath (Text (listContentFor chunkPaths)) = None \<and>
    execAsync env (h @ [WriteFile listPath (Text (listContentFor chunkPaths))])
      (ffmpegCmdFor outputPath) = Some error \<longrightarrow>
      mergeAudioFiles env chunkPaths outputPath fmt h =
        (Inl (new_Error (js ''Failed to merge audio files. Please ensure ffmpeg is installed on your system.'')),
         h @ [WriteFile listPath (Text (listContentFor chunkPaths)),
              Exec (ffmpegCmdFor outputPath)]))"
  by (simp add: mergeAudioFiles_def Let_def unlinkAll_ok mergeFailure_def)

theorem C7_merger_cleanup_witness:
  "writeFile obligingEnv [] listPath
     (Text (listContentFor [js ''output_chunk_1.mp3'', js ''output_chunk_2.mp3''])) = None \<and>
   execAsync obligingEnv
     [WriteFile listPath (Text (listContentFor [js ''output_chunk_1.mp3'', js ''output_chunk_2.mp3'']))]
     (ffmpegCmdFor (js ''output.mp3'')) = None \<and>
   (\<forall>h' path. unlink obligingEnv h' path = None) \<and>
   mergeAudioFiles obligingEnv [js ''output_chunk_1.mp3'', js ''output_chunk_2.mp3'']
       (js ''output.mp3'') (js ''mp3'') [] =
     (Inr (),
      [WriteFile listPath (Text (listContentFor [js ''output_chunk_1.mp3'', js ''output_chunk_2.mp3''])),
       Exec (ffmpegCmdFor (js ''output.mp3'')),
       Unlink listPath, Unlink (js ''output_chunk_1.mp3''), Unlink (js ''output_chunk_2.mp3'')]) \<and>
   writeFile (failingExecEnv (new_Error (js ''Command failed''))) [] listPath
     (Text (listContentFor [js ''output_chunk_1.mp3'', js ''output_chunk_2.mp3''])) = None \<and>
   execAsync (failingExecEnv (new_Error (js ''Command failed'')))
     [WriteFile listPath (Text (listContentFor [js ''output_chunk_1.mp3'', js ''output_chunk_2.mp3'']))]
     (ffmpegCmdFor (js ''output.mp3'')) = Some (new_Error (js ''Command failed'')) \<and>
   mergeAudioFiles (failingExecEnv (new_Error (js ''Command failed'')))
       [js ''output_chunk_1.mp3'', js ''output_chunk_2.mp3''] (js ''output.mp3'') (js ''mp3'') [] =
     (Inl (new_Error (js ''Failed to merge audio files. Please ensure ffmpeg is installed on your system.'')),
      [WriteFile listPath (Text (listContentFor [js ''output_chunk_1.mp3'', js ''output_chunk_2.mp3''])),
       Exec (ffmpegCmdFor (js ''output.mp3''))])"
  using C7_merger_cleanup
          [of obligingEnv "[]" "[js ''output_chunk_1.mp3'', js ''output_chunk_2.mp3'']"
              "js ''output.mp3''" "js ''mp3''"]
        C7_merger_cleanup
          [of "failingExecEnv (new_Error (js ''Command failed''))" "[]"
              "[js ''output_chunk_1.mp3'', js ''output_chunk_2.mp3'']"
              "js ''output.mp3''" "js ''mp3''" "new_Error (js ''Command failed'')"]
  by (simp add: obligingEnv_def failingExecEnv_def)

text \<open>
  C8: the loop starts the conversion of chunk \<open>i + 1\<close> from the events that end with the
  conversion of chunk \<open>i\<close> and one delay of 1000 milliseconds, and adds no delay after
  the last chunk. With more than one chunk and a service and a file system that accept
  every call, the events of the run start with the conversions of the chunks in index
  order, each a synthesis request followed by the write of its fragment, with one delay
  of 1000 milliseconds between two neighbours; after the last conversion comes the write
  of the manifest by the merger, with no delay before it.
\<close>

theorem C8_sequential_paced_conversions:
  "(i < length chunks \<and>
    convertSingleChunk env config (chunks ! i) (i + 1) h = (Inr chunkPath, h') \<longrightarrow>
      convertChunks env config chunks i chunkPaths h =
        convertChunks env config chunks (i + 1) (chunkPaths @ [chunkPath])
          (if i < length chunks - 1 then h' @ [Sleep 1000] else h')) \<and>
   (1 < length (chunkText text) \<and>
    (\<forall>h request. \<exists>buffer. speechCreate env h request = Inr buffer) \<and>
    (\<forall>h path data. writeFile env h path data = None) \<longrightarrow>
      (\<exists>buffers rest.
         length buffers = length (chunkText text) \<and>
         snd (convertTextToSpeech env config text h) =
           h @ join [Sleep 1000]
                 (map (\<lambda>(k, buffer).
                         [SpeechCreate (speechRequestFor config (chunkText text ! k)),
                          WriteFile (tempPathFor config (k + 1)) (Bytes buffer)])
                    (zip [0..<length (chunkText text)] buffers)) @
           WriteFile listPath
             (Text (listContentFor
                (map (\<lambda>k. tempPathFor config (k + 1)) [0..<length (chunkText text)]))) # rest))"
proof (intro conjI impI)
  assume "i < length chunks \<and>
          convertSingleChunk env config (chunks ! i) (i + 1) h = (Inr chunkPath, h')"
  then show "convertChunks env config chunks i chunkPaths h =
             convertChunks env config chunks (i + 1) (chunkPaths @ [chunkPath])
               (if i < length chunks - 1 then h' @ [Sleep 1000] else h')"
    using convertChunks_step[of i chunks env config h chunkPath h' chunkPaths] by blast
next
  assume a: "1 < length (chunkText text) \<and>
             (\<forall>h request. \<exists>buffer. speechCreate env h request = Inr buffer) \<and>
             (\<forall>h path data. writeFile env h path data = None)"
  then have multi: "1 < length (chunkText text)"
    and sp: "\<forall>h request. \<exists>buffer. speechCreate env h request = Inr buffer"
    and wr: "\<forall>h path data. writeFile env h path data = None"
    by blast+
  show "\<exists>buffers rest.
         length buffers = length (chunkText text) \<and>
         snd (convertTextToSpeech env config text h) =
           h @ join [Sleep 1000]
                 (map (\<lambda>(k, buffer).
                         [SpeechCreate (speechRequestFor config (chunkText text ! k)),
                          WriteFile (tempPathFor config (k + 1)) (Bytes buffer)])
                    (zip [0..<length (chunkText text)] buffers)) @
           WriteFile listPath
             (Text (listContentFor
                (map (\<lambda>k. tempPathFor config (k + 1)) [0..<length (chunkText text)]))) # rest"
    using convertTextToSpeech_all_succeed[OF multi sp wr, of config h]
    by (simp add: segment_def)
qed

theorem C8_sequential_paced_conversions_witness:
  "1 < length (chunkText threeWords) \<and>
   (\<forall>h request. \<exists>buffer. speechCreate obligingEnv h request = Inr buffer) \<and>
   (\<forall>h path data. writeFile obligingEnv h path data = None) \<and>
   (\<exists>buffers rest.
      length buffers = 3 \<and>
      snd (convertTextToSpeech obligingEnv exampleConfig threeWords []) =
        [SpeechCreate (speechRequestFor exampleConfig (wordOf 0x61)),
         WriteFile (tempPathFor exampleConfig 1) (Bytes (buffers ! 0)),
         Sleep 1000,
         SpeechCreate (speechRequestFor exampleConfig (wordOf 0x62)),
         WriteFile (tempPathFor exampleConfig 2) (Bytes (buffers ! 1)),
         Sleep 1000,
         SpeechCreate (speechRequestFor exampleConfig (wordOf 0x63)),
         WriteFile (tempPathFor exampleConfig 3) (Bytes (buffers ! 2)),
         WriteFile listPath
           (Text (listContentFor
              [tempPathFor exampleConfig 1, tempPathFor exampleConfig 2,
               tempPathFor exampleConfig 3]))] @ rest)"
proof -
  have multi: "1 < length (chunkText threeWords)"
    by (simp add: chunkText_threeWords)
  have sp: "\<forall>h request. \<exists>buffer. speechCreate obligingEnv h request = Inr buffer"
    by (simp add: obligingEnv_def)
  have wr: "\<forall>h path data. writeFile obligingEnv h path data = None"
    by (simp add: obligingEnv_def)
  obtain buffers rest where len: "length buffers = length (chunkText threeWords)"
    and run: "snd (convertTextToSpeech obligingEnv exampleConfig threeWords []) =
      [] @ join [Sleep 1000]
            (map (\<lambda>(k, buffer).
                    [SpeechCreate (speechRequestFor exampleConfig (chunkText threeWords ! k)),
                     WriteFile (tempPathFor exampleConfig (k + 1)) (Bytes buffer)])
               (zip [0..<length (chunkText threeWords)] buffers)) @
      WriteFile listPath
        (Text (listContentFor
           (map (\<lambda>k. tempPathFor exampleConfig (k + 1))
              [0..<length (chunkText threeWords)]))) # rest"
    using C8_sequential_paced_conversions[of _ _ obligingEnv exampleConfig "[]" _ _ _ threeWords] multi sp wr
    by blast
  have len3: "length buffers = 3"
    using len by (simp add: chunkText_threeWords)
  then obtain b0 b1 b2 where bs: "buffers = [b0, b1, b2]"
    by (auto simp: length_Suc_conv numeral_3_eq_3)
  have "snd (convertTextToSpeech obligingEnv exampleConfig threeWords []) =
        [SpeechCreate (speechRequestFor exampleConfig (wordOf 0x61)),
         WriteFile (tempPathFor exampleConfig 1) (Bytes (buffers ! 0)),
         Sleep 1000,
         SpeechCreate (speechRequestFor exampleConfig (wordOf 0x62)),
         WriteFile (tempPathFor exampleConfig 2) (Bytes (buffers ! 1)),
         Sleep 1000,
         SpeechCreate (speechRequestFor exampleConfig (wordOf 0x63)),
         WriteFile (tempPathFor exampleConfig 3) (Bytes (buffers ! 2)),
         WriteFile listPath
           (Text (listContentFor
              [tempPathFor exampleConfig 1, tempPathFor exampleConfig 2,
               tempPathFor exampleConfig 3]))] @ rest"
    unfolding run bs by (simp add: chunkText_threeWords upt_rec numeral_2_eq_2 numeral_3_eq_3)
  with len3 multi sp wr show ?thesis by blast
qed

text \<open>
  C9: when \<open>chunkText\<close> returns exactly one chunk, the events of the run are one synthesis
  request for the text; then, when it succeeds, the write of its bytes to the output
  path; then, when that succeeds, the \<open>stat\<close> of the output path. No fragment is written
  and no external command is run.
\<close>

theorem C9_single_chunk_direct:
  assumes "length (chunkText text) = 1"
  shows "snd (convertTextToSpeech env config text h) =
         h @ SpeechCreate (speechRequestFor config text) #
           (case speechCreate env h (speechRequestFor config text) of
              Inl error \<Rightarrow> []
            | Inr buffer \<Rightarrow>
                WriteFile (outputBaseName config @ js ''.'' @ audioFormat config) (Bytes buffer) #
                (case writeFile env (h @ [SpeechCreate (speechRequestFor config text)])
                        (outputBaseName config @ js ''.'' @ audioFormat config) (Bytes buffer) of
                   Some error \<Rightarrow> []
                 | None \<Rightarrow> [Stat (outputBaseName config @ js ''.'' @ audioFormat config)]))"
  using assms by (rule convertTextToSpeech_single)

theorem C9_single_chunk_direct_witness:
  "length (chunkText (js ''hello'')) = 1 \<and>
   snd (convertTextToSpeech obligingEnv exampleConfig (js ''hello'') []) =
     [SpeechCreate (speechRequestFor exampleConfig (js ''hello'')),
      WriteFile (js ''output.mp3'') (Bytes []),
      Stat (js ''output.mp3'')]"
proof -
  have one: "length (chunkText (js ''hello'')) = 1"
    by (simp add: chunkText_short js_def MAX_CHUNK_SIZE_def)
  have path: "outputBaseName exampleConfig @ js ''.'' @ audioFormat exampleConfig = js ''output.mp3''"
    by (simp add: exampleConfig_def js_def)
  show ?thesis
    using C9_single_chunk_direct[OF one, of obligingEnv exampleConfig "[]"] one
    by (simp add: path obligingEnv_def)
qed

text \<open>
  C10, as the code has it. The dispatch tests the three kinds first. An error that is of
  none of them is thrown again unchanged when its message contains \<open>ffmpeg\<close>, and is
  replaced by an error whose message is \<open>OpenAI API error: \<close> followed by its message
  otherwise. The error of the merger is of none of the three kinds and is thrown again
  unchanged. An error of one of the three kinds gets the message of its kind, whatever
  its own message contains.
\<close>

theorem C10_dispatch_of_other_errors:
  "(code error \<noteq> Some (js ''invalid_api_key'') \<and> code error \<noteq> Some (js ''insufficient_quota'') \<and>
    \<not> str_includes (message error) (js ''rate limit'') \<longrightarrow>
      convertTextToSpeech_catch error =
        (if str_includes (message error) (js ''ffmpeg'') then error
         else new_Error (js ''OpenAI API error: '' @ message error))) \<and>
   convertTextToSpeech_catch mergeFailure = mergeFailure \<and>
   (code error = Some (js ''invalid_api_key'') \<longrightarrow>
      convertTextToSpeech_catch error = new_Error (js ''Invalid OpenAI API key'')) \<and>
   (code error = Some (js ''insufficient_quota'') \<longrightarrow>
      convertTextToSpeech_catch error = new_Error (js ''OpenAI API quota exceeded'')) \<and>
   (code error \<noteq> Some (js ''invalid_api_key'') \<and> code error \<noteq> Some (js ''insufficient_quota'') \<and>
    str_includes (message error) (js ''rate limit'') \<longrightarrow>
      convertTextToSpeech_catch error =
        new_Error (js ''OpenAI API rate limit exceeded. Please try again later.''))"
proof -
  have diff: "js ''insufficient_quota'' \<noteq> js ''invalid_api_key''"
    by (simp add: js_def)
  show ?thesis
    using mergeFailure_includes diff by (simp add: catch_categories)
qed

theorem C10_dispatch_of_other_errors_witness:
  "code (new_Error (js ''boom'')) \<noteq> Some (js ''invalid_api_key'') \<and>
   code (new_Error (js ''boom'')) \<noteq> Some (js ''insufficient_quota'') \<and>
   \<not> str_includes (message (new_Error (js ''boom''))) (js ''rate limit'') \<and>
   convertTextToSpeech_catch (new_Error (js ''boom'')) = new_Error (js ''OpenAI API error: boom'') \<and>
   code invalidKeyError = Some (js ''invalid_api_key'') \<and>
   convertTextToSpeech_catch invalidKeyError = new_Error (js ''Invalid OpenAI API key'') \<and>
   code (new_Error (js ''ffmpeg hit the rate limit'')) \<noteq> Some (js ''invalid_api_key'') \<and>
   code (new_Error (js ''ffmpeg hit the rate limit'')) \<noteq> Some (js ''insufficient_quota'') \<and>
   str_includes (message (new_Error (js ''ffmpeg hit the rate limit''))) (js ''rate limit'') \<and>
   convertTextToSpeech_catch (new_Error (js ''ffmpeg hit the rate limit'')) =
     new_Error (js ''OpenAI API rate limit exceeded. Please try again later.'')"
  using C10_dispatch_of_other_errors[of "new_Error (js ''boom'')"]
        C10_dispatch_of_other_errors[of invalidKeyError]
        C10_dispatch_of_other_errors[of "new_Error (js ''ffmpeg hit the rate limit'')"]
  by (simp add: new_Error_def invalidKeyError_def js_def)

text \<open>
  C10, as the specification states it, fails on an error whose message contains both
  \<open>ffmpeg\<close> and \<open>rate limit\<close>: the test for the rate limit comes first and replaces it.
\<close>

theorem C10_ffmpeg_rethrown_counterexample:
  "str_includes (message (new_Error (js ''ffmpeg hit the rate limit''))) (js ''ffmpeg'') \<and>
   convertTextToSpeech_catch (new_Error (js ''ffmpeg hit the rate limit'')) \<noteq>
     new_Error (js ''ffmpeg hit the rate limit'')"
  by (simp add: convertTextToSpeech_catch_def new_Error_def js_def)

end
